theory Spec2Isabelle
  imports Main
begin

unbundle bit_operations_syntax

section \<open>Data model\<close>

text \<open>
  The driver object (\<^verbatim>\<open>Oink\<close>) together with the game it points to (\<^verbatim>\<open>Game\<close>).
  Vertices are indices; the arrays of the source that are indexed by a vertex
  (\<^verbatim>\<open>owner\<close>, \<^verbatim>\<open>priority\<close>, \<^verbatim>\<open>out\<close>, \<^verbatim>\<open>in\<close>, \<^verbatim>\<open>solved\<close>, \<^verbatim>\<open>winner\<close>, \<^verbatim>\<open>strategy\<close>,
  \<^verbatim>\<open>disabled\<close>, \<^verbatim>\<open>outcount\<close>) are total functions of the index. Every index the
  program uses is a vertex of the game, below \<^verbatim>\<open>n_nodes\<close>; C++ gives no meaning to
  an access beyond an array, and neither does the model.

  \<^verbatim>\<open>owner\<close> and \<^verbatim>\<open>winner\<close> hold the integers the source compares and stores (a
  player is 0 or 1); a strategy is a successor index or \<open>-1\<close>. The field \<^verbatim>\<open>in\<close> is
  named \<open>inn\<close>. \<^verbatim>\<open>todo\<close> is the buffer of \<^verbatim>\<open>uintqueue.hpp\<close>, which is not among the
  sources: it is taken as the stack it is used as (\<^verbatim>\<open>push\<close> adds on top, \<^verbatim>\<open>pop\<close>
  removes the top), the head of the list being the top.
\<close>

datatype error = LogicError

record oink =
  n_nodes :: nat
  owner :: "nat \<Rightarrow> int"
  priority :: "nat \<Rightarrow> int"
  out :: "nat \<Rightarrow> nat list"
  inn :: "nat \<Rightarrow> nat list"
  solved :: "nat \<Rightarrow> bool"
  winner :: "nat \<Rightarrow> int"
  strategy :: "nat \<Rightarrow> int"
  disabled :: "nat \<Rightarrow> bool"
  outcount :: "nat \<Rightarrow> int"
  todo :: "nat list"

text \<open>\<^verbatim>\<open>x & 1\<close> on a two's complement \<^verbatim>\<open>int\<close>: the lowest bit, 0 or 1 also for negative \<open>x\<close>.\<close>

definition low_bit :: "int \<Rightarrow> int" where
  "low_bit x = x mod 2"

section \<open>The driver: \<^verbatim>\<open>Oink::solve\<close> and \<^verbatim>\<open>Oink::flush\<close>\<close>

text \<open>\<^verbatim>\<open>Oink::solve(node, win, strategy)\<close>; \<^verbatim>\<open>LOGIC_ERROR\<close> aborts the process.\<close>

definition solve :: "nat \<Rightarrow> int \<Rightarrow> int \<Rightarrow> oink \<Rightarrow> error + oink" where
  "solve node win strat s =
     (if solved s node \<or> disabled s node then Inl LogicError
      else Inr (s\<lparr>solved := (solved s)(node := True),
                  winner := (winner s)(node := win),
                  strategy := (strategy s)(node := (if win = owner s node then strat else - 1)),
                  disabled := (disabled s)(node := True),
                  todo := node # todo s\<rparr>))"

text \<open>
  The body of the loop over \<^verbatim>\<open>game->in[v]\<close> in \<^verbatim>\<open>Oink::flush\<close>, for one predecessor
  \<open>u\<close> of the popped vertex \<open>v\<close>; \<open>w\<close> is the local \<^verbatim>\<open>bool winner\<close> as 0 or 1.
\<close>

definition flush_in :: "nat \<Rightarrow> int \<Rightarrow> nat \<Rightarrow> oink \<Rightarrow> oink" where
  "flush_in v w u s =
     (if solved s u then s
      else if owner s u = w then
        s\<lparr>strategy := (strategy s)(u := int v),
          solved := (solved s)(u := True),
          winner := (winner s)(u := w),
          disabled := (disabled s)(u := True),
          todo := u # todo s\<rparr>
      else
        (let s1 = s\<lparr>outcount := (outcount s)(u := outcount s u - 1)\<rparr> in
         if outcount s1 u = 0 then
           s1\<lparr>solved := (solved s1)(u := True),
              winner := (winner s1)(u := w),
              disabled := (disabled s1)(u := True),
              todo := u # todo s1\<rparr>
         else s1))"

text \<open>
  \<^verbatim>\<open>Oink::flush\<close>: the loop runs while \<^verbatim>\<open>todo\<close> is non-empty and returns at once,
  leaving the rest of the buffer, when the popped vertex is already marked \<open>-1\<close>.
  The assertion \<^verbatim>\<open>assert(game->solved[v])\<close> exists in debug builds only and is not
  part of the model. A run that does not end is \<open>None\<close>.
\<close>

partial_function (option) flush :: "oink \<Rightarrow> oink option" where
  "flush s =
     (case todo s of
        [] \<Rightarrow> Some s
      | v # rest \<Rightarrow>
          if outcount s v = - 1 then Some (s\<lparr>todo := rest\<rparr>)
          else
            (let s1 = s\<lparr>todo := rest, outcount := (outcount s)(v := - 1)\<rparr>;
                 w = (if winner s1 v \<noteq> 0 then 1 else 0)
             in flush (fold (flush_in v w) (inn s1 v) s1)))"

section \<open>Reductions: \<^verbatim>\<open>Oink::solveSingleParity\<close>\<close>

text \<open>
  The first loop of \<^verbatim>\<open>solveSingleParity\<close> over the vertices \<open>is\<close> still to visit,
  with the current value of the local \<^verbatim>\<open>parity\<close>; \<open>None\<close> is the \<^verbatim>\<open>return false\<close>
  inside the loop.
\<close>

fun parity_scan :: "oink \<Rightarrow> nat list \<Rightarrow> int \<Rightarrow> int option" where
  "parity_scan s [] parity = Some parity"
| "parity_scan s (i # is) parity =
     (if disabled s i then parity_scan s is parity
      else if parity = - 1 then parity_scan s is (low_bit (priority s i))
      else if parity = low_bit (priority s i) then parity_scan s is parity
      else None)"

text \<open>The body of the second loop, for vertex \<open>i\<close>.\<close>

definition single_parity_vertex :: "int \<Rightarrow> nat \<Rightarrow> oink \<Rightarrow> error + oink" where
  "single_parity_vertex parity i s =
     (if disabled s i then Inr s
      else if owner s i = parity then
        (case find (\<lambda>to. \<not> disabled s to) (out s i) of
           None \<Rightarrow> Inr s
         | Some to \<Rightarrow> solve i parity (int to) s)
      else solve i parity (- 1) s)"

text \<open>A \<^verbatim>\<open>for\<close> loop whose body may abort: the first error ends it.\<close>

fun for_each :: "('a \<Rightarrow> 's \<Rightarrow> error + 's) \<Rightarrow> 'a list \<Rightarrow> 's \<Rightarrow> error + 's" where
  "for_each f [] s = Inr s"
| "for_each f (x # xs) s = (case f x s of Inl e \<Rightarrow> Inl e | Inr s' \<Rightarrow> for_each f xs s')"

definition solveSingleParity :: "oink \<Rightarrow> (error + bool \<times> oink) option" where
  "solveSingleParity s =
     (case parity_scan s [0..<n_nodes s] (- 1) of
        None \<Rightarrow> Some (Inr (False, s))
      | Some parity \<Rightarrow>
          if parity = 0 \<or> parity = 1 then
            (case for_each (single_parity_vertex parity) [0..<n_nodes s] s of
               Inl e \<Rightarrow> Some (Inl e)
             | Inr s1 \<Rightarrow> map_option (\<lambda>s2. Inr (True, s2)) (flush s1))
          else Some (Inr (False, s)))"

section \<open>The recursive solver: \<^verbatim>\<open>zsolver\<close>\<close>

text \<open>
  The fields of \<^verbatim>\<open>struct zsolver\<close>, and with them the two variables of the process that
  the solver reads and writes: the category counter \<^verbatim>\<open>last_category\<close> and the table
  \<^verbatim>\<open>memo\<close>, a \<^verbatim>\<open>std::map\<close> from (precision, vertex list) to a list of strategies.
  The draft \<^verbatim>\<open>strategy\<close> of the solver is named \<open>zstrategy\<close>, to keep it apart from
  the strategy of the game. \<^verbatim>\<open>degs\<close> starts as an empty vector that every call of
  \<^verbatim>\<open>attractor\<close> resizes to \<^verbatim>\<open>n_nodes\<close> entries, new ones being \<open>-1\<close>: as a function of
  the index it starts as \<open>-1\<close> everywhere. The game \<^verbatim>\<open>g\<close> is a parameter of the
  functions below; the solver never changes it.
\<close>

type_synonym memo_key = "(int \<times> int) \<times> nat list"

record zsolver =
  vtype :: "nat \<Rightarrow> int"
  zstrategy :: "nat \<Rightarrow> int"
  degs :: "nat \<Rightarrow> int"
  iters :: int
  flags :: int
  last_category :: int
  memo :: "memo_key \<Rightarrow> int list option"

text \<open>The flag bits of \<^verbatim>\<open>experimental.hpp\<close>.\<close>

definition zielonka :: int where "zielonka = 1"
definition memoize :: int where "memoize = 2"
definition quick_priority :: int where "quick_priority = 4"
definition auto_reduce :: int where "auto_reduce = 8"

subsection \<open>\<^verbatim>\<open>zsolver::attractor\<close>\<close>

text \<open>The first loop, for one vertex \<open>v\<close> of \<open>vs\<close>; the state is the queue and the solver.\<close>

definition attr_init ::
  "oink \<Rightarrow> int \<Rightarrow> int \<Rightarrow> int \<Rightarrow> nat \<Rightarrow> nat list \<times> zsolver \<Rightarrow> nat list \<times> zsolver" where
  "attr_init g whose cat_no cat_yes v qz =
     (let aqueue = fst qz; zs = snd qz in
      if vtype zs v = cat_yes then (aqueue @ [v], zs)
      else if owner g v = whose then (aqueue, zs\<lparr>degs := (degs zs)(v := 1)\<rparr>)
      else (aqueue,
            zs\<lparr>degs := (degs zs)(v :=
                  int (length (filter (\<lambda>w. vtype zs w = cat_no \<or> vtype zs w = cat_yes)
                                      (out g v))))\<rparr>))"

text \<open>The body of the loop over \<^verbatim>\<open>g->in[v]\<close>, for one predecessor \<open>w\<close> of \<open>v\<close>.\<close>

definition attr_edge ::
  "oink \<Rightarrow> int \<Rightarrow> int \<Rightarrow> nat \<Rightarrow> nat \<Rightarrow> nat list \<times> zsolver \<Rightarrow> nat list \<times> zsolver" where
  "attr_edge g whose cat_yes v w qz =
     (let aqueue = fst qz; zs = snd qz;
          zs1 = zs\<lparr>degs := (degs zs)(w := degs zs w - 1)\<rparr>
      in if degs zs1 w = 0 then
           (aqueue @ [w],
            zs1\<lparr>vtype := (vtype zs1)(w := cat_yes),
                zstrategy := (zstrategy zs1)(w := (if owner g w = whose then int v else - 1))\<rparr>)
         else (aqueue, zs1))"

text \<open>The loop \<^verbatim>\<open>for(int i=0; i < int(aqueue.size()); i++)\<close>, from index \<open>i\<close> on.\<close>

partial_function (option) attr_loop ::
  "oink \<Rightarrow> int \<Rightarrow> int \<Rightarrow> nat \<Rightarrow> nat list \<times> zsolver \<Rightarrow> (nat list \<times> zsolver) option" where
  "attr_loop g whose cat_yes i qz =
     (if i < length (fst qz) then
        attr_loop g whose cat_yes (i + 1)
          (fold (attr_edge g whose cat_yes (fst qz ! i)) (inn g (fst qz ! i)) qz)
      else Some qz)"

definition attractor :: "oink \<Rightarrow> nat list \<Rightarrow> int \<Rightarrow> int \<Rightarrow> int \<Rightarrow> zsolver \<Rightarrow> zsolver option" where
  "attractor g vs whose cat_no cat_yes zs =
     Option.bind (attr_loop g whose cat_yes 0 (fold (attr_init g whose cat_no cat_yes) vs ([], zs)))
       (\<lambda>qz. Some ((snd qz)\<lparr>degs := fold (\<lambda>v d. d(v := - 1)) vs (degs (snd qz))\<rparr>))"

subsection \<open>\<^verbatim>\<open>zsolver::run\<close>\<close>

text \<open>\<^verbatim>\<open>precision[p]\<close> and \<^verbatim>\<open>precision[p]--\<close> on a \<^verbatim>\<open>std::array<int, 2>\<close>, for \<open>p\<close> 0 or 1.\<close>

definition prec_at :: "int \<times> int \<Rightarrow> int \<Rightarrow> int" where
  "prec_at precision p = (if p = 0 then fst precision else snd precision)"

definition prec_dec :: "int \<times> int \<Rightarrow> int \<Rightarrow> int \<times> int" where
  "prec_dec precision p =
     (if p = 0 then (fst precision - 1, snd precision) else (fst precision, snd precision - 1))"

text \<open>A hit in the table: \<^verbatim>\<open>strategy[vs[i]] = m[i]\<close> for every index of \<open>vs\<close>.\<close>

definition memo_load :: "nat list \<Rightarrow> int list \<Rightarrow> zsolver \<Rightarrow> zsolver" where
  "memo_load vs m zs =
     zs\<lparr>zstrategy := fold (\<lambda>i st. st(vs ! i := m ! i)) [0..<length vs] (zstrategy zs)\<rparr>"

text \<open>
  Recording a frame, when the flag is set: \<^verbatim>\<open>memo[{precision, vs}]\<close> creates an empty
  entry if there is none, and \<^verbatim>\<open>push_back\<close> appends to whatever the entry holds.
\<close>

definition memo_record :: "int \<times> int \<Rightarrow> nat list \<Rightarrow> zsolver \<Rightarrow> zsolver" where
  "memo_record precision vs zs =
     (if flags zs AND memoize \<noteq> 0 then
        zs\<lparr>memo := (memo zs)((precision, vs) \<mapsto>
              (case memo zs (precision, vs) of None \<Rightarrow> [] | Some m \<Rightarrow> m) @ map (zstrategy zs) vs)\<rparr>
      else zs)"

text \<open>The frame conceded at its entry, because \<^verbatim>\<open>precision[us] <= 0\<close>.\<close>

definition concede_entry :: "oink \<Rightarrow> nat list \<Rightarrow> int \<Rightarrow> zsolver \<Rightarrow> zsolver" where
  "concede_entry g vs maxprio zs =
     zs\<lparr>zstrategy := fold (\<lambda>v st. st(v := (if owner g v = low_bit maxprio then - 1 else 999)))
                         vs (zstrategy zs)\<rparr>"

text \<open>The subgame conceded without a recursive call, because \<^verbatim>\<open>subprecision[opponent] == 0\<close>.\<close>

definition concede_sub :: "oink \<Rightarrow> nat list \<Rightarrow> int \<Rightarrow> zsolver \<Rightarrow> zsolver" where
  "concede_sub g vs us zs =
     zs\<lparr>zstrategy := fold (\<lambda>v st. st(v := (if owner g v = us then 999 else - 1)))
                         vs (zstrategy zs)\<rparr>"

text \<open>Marking the vertices of priority \<open>maxprio\<close>.\<close>

definition mark_hiprio :: "oink \<Rightarrow> nat list \<Rightarrow> int \<Rightarrow> int \<Rightarrow> zsolver \<Rightarrow> zsolver" where
  "mark_hiprio g vs maxprio cat_hiprio zs =
     fold (\<lambda>v z. if priority g v = maxprio
                  then z\<lparr>vtype := (vtype z)(v := cat_hiprio), zstrategy := (zstrategy z)(v := - 2)\<rparr>
                  else z) vs zs"

text \<open>Reading the verdict of the subgame, for one vertex; the flag is \<^verbatim>\<open>subgame_won\<close>.\<close>

definition verdict :: "oink \<Rightarrow> int \<Rightarrow> int \<Rightarrow> int \<Rightarrow> nat \<Rightarrow> zsolver \<times> bool \<Rightarrow> zsolver \<times> bool" where
  "verdict g us cat_hiprio cat_opponent_wins v zw =
     (let z = fst zw in
      if (if owner g v = us then zstrategy z v = - 1 else zstrategy z v \<ge> 0)
      then (z\<lparr>vtype := (vtype z)(v := cat_opponent_wins)\<rparr>, False)
      else (z\<lparr>vtype := (vtype z)(v := cat_hiprio)\<rparr>, snd zw))"

text \<open>The strategy of the vertices of priority \<open>maxprio\<close>, when the subgame is won.\<close>

definition fill_hiprio :: "oink \<Rightarrow> nat list \<Rightarrow> int \<Rightarrow> int \<Rightarrow> int \<Rightarrow> zsolver \<Rightarrow> zsolver" where
  "fill_hiprio g vs maxprio us cat_hiprio zs =
     fold (\<lambda>v z. if priority g v = maxprio then
                    (if owner g v = us then
                       fold (\<lambda>e z'. if vtype z' e = cat_hiprio
                                     then z'\<lparr>zstrategy := (zstrategy z')(v := int e)\<rparr> else z')
                            (out g v) z
                     else z\<lparr>zstrategy := (zstrategy z)(v := - 1)\<rparr>)
                  else z) vs zs"

text \<open>
  \<^verbatim>\<open>zsolver::run(vs, cat_base, precision, mode, mprio)\<close>. \<^verbatim>\<open>us ^ 1\<close> is \<open>1 - us\<close>, \<open>us\<close> being
  0 or 1; \<^verbatim>\<open>new_category()\<close> returns the counter and increments it. A run that does
  not end is \<open>None\<close>.
\<close>

partial_function (option) zrun ::
  "oink \<Rightarrow> nat list \<Rightarrow> int \<Rightarrow> int \<times> int \<Rightarrow> int \<Rightarrow> int \<Rightarrow> zsolver \<Rightarrow> zsolver option" where
  "zrun g vs cat_base precision mode mprio zs0 =
     (if flags zs0 AND memoize \<noteq> 0 \<and> memo zs0 (precision, vs) \<noteq> None then
        Some (memo_load vs (the (memo zs0 (precision, vs))) zs0)
      else
        (let zs1 = zs0\<lparr>iters := iters zs0 + 1\<rparr> in
         if vs = [] then Some zs1
         else
           (let maxprio = (if mprio < 0 then fold (\<lambda>v m. max m (priority g v)) vs mprio
                           else mprio);
                us = low_bit maxprio;
                opponent = 1 - us
            in
            if prec_at precision us \<le> 0 then Some (concede_entry g vs maxprio zs1)
            else
              (let cat_hiprio = last_category zs1;
                   zs2 = mark_hiprio g vs maxprio cat_hiprio
                           (zs1\<lparr>last_category := last_category zs1 + 1\<rparr>)
               in
               Option.bind (attractor g vs us cat_base cat_hiprio zs2) (\<lambda>zs3.
                 let subprecision = (if mode = 0 \<or> mode = 2 then prec_dec precision opponent
                                     else precision);
                     subgame = filter (\<lambda>v. vtype zs3 v = cat_base) vs
                 in
                 Option.bind
                   (if prec_at subprecision opponent = 0 then Some (concede_sub g vs us zs3)
                    else zrun g subgame cat_base subprecision (if mode = 3 then 3 else 0)
                           (mprio - 1) zs3)
                   (\<lambda>zs4.
                     let cat_opponent_wins = last_category zs4;
                         zw = fold (verdict g us cat_hiprio cat_opponent_wins) subgame
                                (zs4\<lparr>last_category := last_category zs4 + 1\<rparr>, True);
                         zs5 = fst zw;
                         subgame_won = snd zw
                     in
                     if subgame_won then
                       (if mode = 0 then zrun g vs cat_hiprio precision 1 mprio zs5
                        else Some (memo_record precision vs
                                     (fill_hiprio g vs maxprio us cat_hiprio zs5)))
                     else
                       Option.bind (attractor g vs opponent cat_hiprio cat_opponent_wins zs5)
                         (\<lambda>zs6.
                           Option.bind
                             (zrun g (filter (\<lambda>v. vtype zs6 v = cat_hiprio) vs) cat_hiprio
                                precision (if mode = 1 then 2 else mode) mprio zs6)
                             (\<lambda>zs7. Some (memo_record precision vs zs7)))))))))"

subsection \<open>\<^verbatim>\<open>ExperimentalSolver::run\<close>\<close>

text \<open>The variables of the process that outlive a solver.\<close>

record globals =
  g_last_category :: int
  g_memo :: "memo_key \<Rightarrow> int list option"

text \<open>\<^verbatim>\<open>int prec = 0; while((1 << prec) < n_nodes) prec++;\<close> from the value \<open>prec\<close> on.\<close>

function prec_loop :: "nat \<Rightarrow> nat \<Rightarrow> nat" where
  "prec_loop n prec = (if 2 ^ prec < n then prec_loop n (prec + 1) else prec)"
  by pat_completeness auto
termination
  by (relation "measure (\<lambda>(n, prec). n - 2 ^ prec)") (auto intro: diff_less_mono2)

text \<open>The last loop: what the solver found goes to \<^verbatim>\<open>Oink::solve\<close>; \<^verbatim>\<open>!owner[i]\<close> is 1 for 0.\<close>

definition absorb :: "zsolver \<Rightarrow> nat \<Rightarrow> oink \<Rightarrow> error + oink" where
  "absorb zs i s =
     (if \<not> solved s i then
        (if zstrategy zs i \<ge> 0 then solve i (owner s i) (zstrategy zs i) s
         else solve i (if owner s i = 0 then 1 else 0) (- 1) s)
      else Inr s)"

text \<open>The solver object as \<^verbatim>\<open>ExperimentalSolver::run\<close> sets it up before the call of \<^verbatim>\<open>zs.run\<close>.\<close>

definition new_zsolver :: "int \<Rightarrow> globals \<Rightarrow> zsolver" where
  "new_zsolver fl gl =
     \<lparr>vtype = (\<lambda>_. g_last_category gl), zstrategy = (\<lambda>_. 0), degs = (\<lambda>_. - 1),
      iters = 0, flags = fl, last_category = g_last_category gl + 1, memo = g_memo gl\<rparr>"

text \<open>The call of \<^verbatim>\<open>zs.run\<close> with the arguments the driver computes.\<close>

definition experimental_zrun :: "int \<Rightarrow> oink \<Rightarrow> globals \<Rightarrow> zsolver option" where
  "experimental_zrun fl s gl =
     (let vset = [0..<n_nodes s];
          prec = int (prec_loop (n_nodes s) 0);
          maxprio = fold (\<lambda>v m. max m (priority s v)) vset 0
      in zrun s vset (g_last_category gl) (prec, prec)
           (if fl AND zielonka \<noteq> 0 then 3 else 0)
           (if fl AND quick_priority \<noteq> 0 then - 1 else maxprio)
           (new_zsolver fl gl))"

definition experimental_run :: "int \<Rightarrow> oink \<times> globals \<Rightarrow> (error + oink \<times> globals) option" where
  "experimental_run fl sg =
     Option.bind (experimental_zrun fl (fst sg) (snd sg)) (\<lambda>zs.
       Some (case for_each (absorb zs) [0..<n_nodes (fst sg)] (fst sg) of
               Inl e \<Rightarrow> Inl e
             | Inr s' \<Rightarrow> Inr (s', \<lparr>g_last_category = last_category zs, g_memo = memo zs\<rparr>)))"

section \<open>Reductions: \<^verbatim>\<open>Oink::solveSelfloops\<close>\<close>

text \<open>
  The body of the loop over the vertices, for vertex \<open>n\<close>, with the counter \<^verbatim>\<open>res\<close>. The
  inner loop stops at the first occurrence of \<open>n\<close> in \<^verbatim>\<open>out[n]\<close>: \<^verbatim>\<open>out.erase(it)\<close> removes
  that occurrence, and the erase-remove on \<^verbatim>\<open>in[n]\<close> removes every \<open>n\<close>.
\<close>

definition selfloop_vertex :: "nat \<Rightarrow> oink \<times> int \<Rightarrow> error + oink \<times> int" where
  "selfloop_vertex n sr =
     (let s = fst sr; res = snd sr in
      if disabled s n then Inr sr
      else if n \<notin> set (out s n) then Inr sr
      else if owner s n = low_bit (priority s n) then
        (case solve n (owner s n) (int n) s of Inl e \<Rightarrow> Inl e | Inr s' \<Rightarrow> Inr (s', res + 1))
      else if length (out s n) = 1 then
        (case solve n (1 - owner s n) (- 1) s of Inl e \<Rightarrow> Inl e | Inr s' \<Rightarrow> Inr (s', res + 1))
      else
        Inr (s\<lparr>out := (out s)(n := remove1 n (out s n)),
                inn := (inn s)(n := removeAll n (inn s n)),
                outcount := (outcount s)(n := outcount s n - 1)\<rparr>, res + 1))"

definition solveSelfloops :: "oink \<Rightarrow> (error + int \<times> oink) option" where
  "solveSelfloops s =
     (case for_each selfloop_vertex [0..<n_nodes s] (s, 0) of
        Inl e \<Rightarrow> Some (Inl e)
      | Inr sr \<Rightarrow> map_option (\<lambda>s'. Inr (snd sr, s')) (flush (fst sr)))"

section \<open>Reductions: \<^verbatim>\<open>Oink::solveTrivialCycles\<close>\<close>

text \<open>
  The driver state together with the local variables of \<^verbatim>\<open>solveTrivialCycles\<close> that live
  across iterations. \<^verbatim>\<open>done\<close> is named \<open>done_arr\<close>. \<^verbatim>\<open>st\<close> is a stack and \<^verbatim>\<open>res\<close> a vector
  used as one (\<^verbatim>\<open>push_back\<close>, \<^verbatim>\<open>back\<close>, \<^verbatim>\<open>pop_back\<close>): the head of each list is the top.
  \<^verbatim>\<open>scc\<close> is empty whenever an iteration of the search begins and is local to it.
  \<^verbatim>\<open>low\<close> and \<^verbatim>\<open>pre\<close> are 64-bit and \<^verbatim>\<open>min\<close> is an \<^verbatim>\<open>int\<close> in the source; here they
  are unbounded integers, \<^verbatim>\<open>pre\<close> cannot become negative, and the \<^verbatim>\<open>LOGIC_ERROR\<close> on
  its overflow has no branch.
\<close>

record tc =
  ok :: oink
  done_arr :: "nat \<Rightarrow> int"
  low :: "nat \<Rightarrow> int"
  res :: "nat list"
  st :: "nat list"
  pre :: int
  count :: int

text \<open>
  The loop over \<^verbatim>\<open>out[idx]\<close> in the search from root \<open>i\<close>: the result is the vertex to
  push, if the loop ends by \<^verbatim>\<open>break\<close>, and the value of \<^verbatim>\<open>min\<close>. The first test of the
  body reads \<^verbatim>\<open>disabled[i]\<close>, the mask of the root.
\<close>

fun tc_edges :: "tc \<Rightarrow> nat \<Rightarrow> int \<Rightarrow> int \<Rightarrow> int \<Rightarrow> nat list \<Rightarrow> int \<Rightarrow> nat option \<times> int" where
  "tc_edges t i pr pl botm [] mn = (None, mn)"
| "tc_edges t i pr pl botm (to # tos) mn =
     (if disabled (ok t) i then tc_edges t i pr pl botm tos mn
      else if to > i \<or> done_arr t to = - 2 \<or> done_arr t to = pr \<or> owner (ok t) to \<noteq> pl
        then tc_edges t i pr pl botm tos mn
      else if low t to \<le> botm then (Some to, mn)
      else tc_edges t i pr pl botm tos (if low t to < mn then low t to else mn))"

text \<open>
  Moving the component from \<^verbatim>\<open>res\<close> to \<^verbatim>\<open>scc\<close>, down to \<open>idx\<close>. The accumulator holds
  \<^verbatim>\<open>scc\<close> (in the order of \<^verbatim>\<open>push_back\<close>), \<^verbatim>\<open>max_pr\<close>, \<^verbatim>\<open>max_pr_pl\<close>, \<^verbatim>\<open>max_pr_n\<close>. An empty
  \<^verbatim>\<open>res\<close> is a \<^verbatim>\<open>LOGIC_ERROR\<close>.
\<close>

fun tc_collect ::
  "nat \<Rightarrow> int \<Rightarrow> int \<Rightarrow> int \<Rightarrow> tc \<Rightarrow> nat list \<times> int \<times> int \<times> int \<Rightarrow> nat list \<Rightarrow>
   error + tc \<times> nat list \<times> int \<times> int \<times> int" where
  "tc_collect idx pr pl mn t acc [] = Inl LogicError"
| "tc_collect idx pr pl mn t acc (n # rest) =
     (let scc = fst acc; max_pr = fst (snd acc); max_pr_pl = fst (snd (snd acc));
          max_pr_n = snd (snd (snd acc));
          t1 = t\<lparr>res := rest, done_arr := (done_arr t)(n := pr),
                 low := (if low t n \<noteq> mn then (low t)(n := mn) else low t)\<rparr>;
          d = priority (ok t) n;
          max_pr1 = (if d > max_pr then d else max_pr);
          better = (low_bit d = pl \<and> d > max_pr_pl);
          acc1 = (scc @ [n], max_pr1, (if better then d else max_pr_pl),
                  (if better then int n else max_pr_n))
      in if n = idx then Inr (t1, acc1) else tc_collect idx pr pl mn t1 acc1 rest)"

text \<open>
  The backward search that sets the strategies of an accepted component: the queue \<^verbatim>\<open>q\<close>
  and, for the vertex at its front, the loop over \<^verbatim>\<open>in[cur]\<close>.
\<close>

definition tc_back_edge ::
  "(nat \<Rightarrow> int) \<Rightarrow> int \<Rightarrow> int \<Rightarrow> nat \<Rightarrow> nat \<Rightarrow> nat list \<times> oink \<Rightarrow> error + nat list \<times> oink" where
  "tc_back_edge lw mn pl cur frm qs =
     (let q = fst qs; s = snd qs in
      if lw frm \<noteq> mn \<or> disabled s frm then Inr qs
      else (case solve frm pl (int cur) s of
              Inl e \<Rightarrow> Inl e
            | Inr s' \<Rightarrow> Inr (q @ [frm], s')))"

partial_function (option) tc_back ::
  "(nat \<Rightarrow> int) \<Rightarrow> int \<Rightarrow> int \<Rightarrow> nat list \<times> oink \<Rightarrow> (error + oink) option" where
  "tc_back lw mn pl qs =
     (case fst qs of
        [] \<Rightarrow> Some (Inr (snd qs))
      | cur # q \<Rightarrow>
          (case for_each (tc_back_edge lw mn pl cur) (inn (snd qs) cur) (q, snd qs) of
             Inl e \<Rightarrow> Some (Inl e)
           | Inr qs' \<Rightarrow> tc_back lw mn pl qs'))"

text \<open>
  One iteration of \<^verbatim>\<open>while (!st.empty())\<close> in the search from root \<open>i\<close>, with \<open>pr\<close>, \<open>pl\<close>
  and \<open>botm\<close> (\<^verbatim>\<open>bot\<close>) as the source computes them for the root; \<open>st\<close> is not empty.
\<close>

definition tc_iter :: "nat \<Rightarrow> int \<Rightarrow> int \<Rightarrow> int \<Rightarrow> tc \<Rightarrow> (error + tc) option" where
  "tc_iter i pr pl botm t0 =
     (let idx = hd (st t0);
          t1 = (if low t0 idx \<le> botm
                then t0\<lparr>low := (low t0)(idx := pre t0 + 1), pre := pre t0 + 1, res := idx # res t0\<rparr>
                else t0);
          em = tc_edges t1 i pr pl botm (out (ok t1) idx) (low t1 idx)
      in case fst em of
           Some to \<Rightarrow> Some (Inr (t1\<lparr>st := to # st t1\<rparr>))
         | None \<Rightarrow>
             (let mn = snd em in
              if mn < low t1 idx then
                Some (Inr (t1\<lparr>low := (low t1)(idx := mn), st := tl (st t1)\<rparr>))
              else
                (case tc_collect idx pr pl mn t1 ([], - 1, - 1, - 1) (res t1) of
                   Inl e \<Rightarrow> Some (Inl e)
                 | Inr ta \<Rightarrow>
                     (let t2 = fst ta; scc = fst (snd ta); max_pr = fst (snd (snd ta));
                          max_pr_pl = fst (snd (snd (snd ta)));
                          max_pr_n = snd (snd (snd (snd ta)))
                      in
                      if length scc = 1 \<and> idx \<notin> set (out (ok t2) idx) then
                        Some (Inr (t2\<lparr>done_arr := (done_arr t2)(idx := - 2), st := tl (st t2)\<rparr>))
                      else if low_bit max_pr \<noteq> pl then
                        Some (Inr (t2\<lparr>done_arr :=
                                        fold (\<lambda>n d. if priority (ok t2) n > max_pr_pl
                                                     then d(n := - 2) else d) scc (done_arr t2),
                                      st := tl (st t2)\<rparr>))
                      else
                        Option.bind (tc_back (low t2) mn pl ([nat max_pr_n], ok t2)) (\<lambda>r.
                          case r of
                            Inl e \<Rightarrow> Some (Inl e)
                          | Inr s1 \<Rightarrow>
                              Option.bind (flush s1) (\<lambda>s2.
                                Some (Inr (t2\<lparr>ok := s2, st := [], res := [],
                                              count := count t2 + 1\<rparr>))))))))"

text \<open>The loop \<^verbatim>\<open>while (!st.empty())\<close>.\<close>

partial_function (option) tc_search :: "nat \<Rightarrow> int \<Rightarrow> int \<Rightarrow> int \<Rightarrow> tc \<Rightarrow> (error + tc) option" where
  "tc_search i pr pl botm t =
     (if st t = [] then Some (Inr t)
      else Option.bind (tc_iter i pr pl botm t) (\<lambda>r.
             case r of Inl e \<Rightarrow> Some (Inl e) | Inr t' \<Rightarrow> tc_search i pr pl botm t'))"

text \<open>The body of the loop over the roots, \<^verbatim>\<open>for (int i=n_nodes-1; i>=0; i--)\<close>.\<close>

definition tc_root :: "nat \<Rightarrow> tc \<Rightarrow> (error + tc) option" where
  "tc_root i t =
     (let pr = priority (ok t) i; pl = low_bit pr in
      if disabled (ok t) i then Some (Inr t)
      else if done_arr t i = - 2 then Some (Inr t)
      else if owner (ok t) i \<noteq> pl then Some (Inr (t\<lparr>done_arr := (done_arr t)(i := - 2)\<rparr>))
      else if done_arr t i = pr then Some (Inr t)
      else tc_search i pr pl (pre t) (t\<lparr>st := i # st t\<rparr>))"

text \<open>A \<^verbatim>\<open>for\<close> loop whose body may abort or not return.\<close>

fun for_each_opt :: "('a \<Rightarrow> 's \<Rightarrow> (error + 's) option) \<Rightarrow> 'a list \<Rightarrow> 's \<Rightarrow> (error + 's) option" where
  "for_each_opt f [] s = Some (Inr s)"
| "for_each_opt f (x # xs) s =
     (case f x s of
        None \<Rightarrow> None
      | Some (Inl e) \<Rightarrow> Some (Inl e)
      | Some (Inr s') \<Rightarrow> for_each_opt f xs s')"

text \<open>The local variables as \<^verbatim>\<open>solveTrivialCycles\<close> initialises them.\<close>

definition tc_init :: "oink \<Rightarrow> tc" where
  "tc_init s =
     \<lparr>ok = s, done_arr = (\<lambda>i. if disabled s i then - 2 else - 1), low = (\<lambda>_. 0),
      res = [], st = [], pre = 0, count = 0\<rparr>"

definition solveTrivialCycles :: "oink \<Rightarrow> (error + int \<times> oink) option" where
  "solveTrivialCycles s =
     map_option (map_sum id (\<lambda>t. (count t, ok t)))
       (for_each_opt tc_root (rev [0..<n_nodes s]) (tc_init s))"

section \<open>The driver: \<^verbatim>\<open>Oink::solveLoop\<close> and \<^verbatim>\<open>Oink::run\<close>\<close>

text \<open>
  The options of the driver that \<^verbatim>\<open>run\<close> and \<^verbatim>\<open>solveLoop\<close> read, and the three parts of
  the program they call that are not among the sources:
  \<^item> \<^verbatim>\<open>Game::inflate\<close>, \<^verbatim>\<open>Game::compress\<close> and \<^verbatim>\<open>Game::renumber\<close> rewrite the priorities
    of the game; the model takes each as a function from the old priorities to the new;
  \<^item> \<^verbatim>\<open>Oink::getBottomSCC\<close> selects vertices; the model takes it as a function of the
    state;
  \<^item> the registry constructs solvers other than the experimental ones; \<open>solver\<close> is the
    index in the registry, \<open>-1\<close> when none is set.
\<close>

record config =
  inflate :: bool
  compress :: bool
  renumber :: bool
  solveSingle :: bool
  removeLoops :: bool
  removeWCWC :: bool
  bottomSCC :: bool
  solver :: int

record collaborators =
  game_inflate :: "(nat \<Rightarrow> int) \<Rightarrow> (nat \<Rightarrow> int)"
  game_compress :: "(nat \<Rightarrow> int) \<Rightarrow> (nat \<Rightarrow> int)"
  game_renumber :: "(nat \<Rightarrow> int) \<Rightarrow> (nat \<Rightarrow> int)"
  getBottomSCC :: "oink \<Rightarrow> nat list"

text \<open>
  The entries of \<^verbatim>\<open>Solvers::Solvers()\<close> that construct an \<^verbatim>\<open>ExperimentalSolver\<close>, by
  index in the order of the calls of \<^verbatim>\<open>add\<close>, with the flags they pass.
\<close>

definition solver_flags :: "int \<Rightarrow> int option" where
  "solver_flags sid =
     (if sid = 1 then Some (zielonka OR quick_priority)
      else if sid = 2 then Some (zielonka OR quick_priority OR memoize)
      else if sid = 3 then Some 0
      else if sid = 4 then Some quick_priority
      else if sid = 5 then Some (quick_priority OR memoize)
      else if sid = 6 then Some memoize
      else if sid = 7 then Some (quick_priority OR auto_reduce)
      else if sid = 8 then Some (quick_priority OR auto_reduce OR memoize)
      else None)"

text \<open>\<^verbatim>\<open>Solvers::id\<close> on the labels of these entries.\<close>

definition solver_id :: "string \<Rightarrow> int" where
  "solver_id lbl =
     (if lbl = ''ez'' then 1 else if lbl = ''ezm'' then 2 else if lbl = ''ep'' then 3
      else if lbl = ''epq'' then 4 else if lbl = ''epqm'' then 5 else if lbl = ''epm'' then 6
      else if lbl = ''epqa'' then 7 else if lbl = ''epqma'' then 8 else - 1)"

text \<open>
  Modelled from the spec: \<^verbatim>\<open>Game::gameSolved\<close>, which is not among the sources. The
  driver loops while unsolved vertices remain: the game is solved when every vertex is.
\<close>

definition gameSolved :: "oink \<Rightarrow> bool" where
  "gameSolved s = list_all (solved s) [0..<n_nodes s]"

text \<open>
  The mask at the top of an iteration of \<^verbatim>\<open>solveLoop\<close>: \<^verbatim>\<open>disabled = game->solved\<close>, and
  with \<^verbatim>\<open>bottomSCC\<close> every bit set except those of the selection. The assertion on the
  selection exists in debug builds only and is not part of the model.
\<close>

definition set_mask :: "config \<Rightarrow> collaborators \<Rightarrow> oink \<Rightarrow> oink" where
  "set_mask cfg col s =
     (let s1 = s\<lparr>disabled := solved s\<rparr> in
      if bottomSCC cfg then
        fold (\<lambda>i s'. s'\<lparr>disabled := (disabled s')(i := False)\<rparr>) (getBottomSCC col s1)
          (s1\<lparr>disabled := (\<lambda>_. True)\<rparr>)
      else s1)"

text \<open>
  \<^verbatim>\<open>Oink::solveLoop\<close> with an experimental solver. For another index the registry
  constructs a solver that is not among the sources, and the model has no result.
\<close>

partial_function (option) solveLoop ::
  "config \<Rightarrow> collaborators \<Rightarrow> oink \<times> globals \<Rightarrow> (error + oink \<times> globals) option" where
  "solveLoop cfg col sg =
     (if gameSolved (fst sg) then Some (Inr sg)
      else
        (case solver_flags (solver cfg) of
           None \<Rightarrow> None
         | Some fl \<Rightarrow>
             Option.bind (experimental_run fl (set_mask cfg col (fst sg), snd sg)) (\<lambda>r.
               case r of
                 Inl e \<Rightarrow> Some (Inl e)
               | Inr sg1 \<Rightarrow>
                   Option.bind (flush (fst sg1)) (\<lambda>s2. solveLoop cfg col (s2, snd sg1)))))"

text \<open>
  \<^verbatim>\<open>Oink::run\<close>. The arrays \<^verbatim>\<open>outa\<close>, \<^verbatim>\<open>ina\<close>, \<^verbatim>\<open>outs\<close>, \<^verbatim>\<open>ins\<close> that it builds are not
  read by the experimental solvers and are left out; whether the loop runs under the
  worker runtime or not, it is the same \<^verbatim>\<open>solveLoop\<close>.
\<close>

definition reprioritise :: "config \<Rightarrow> collaborators \<Rightarrow> oink \<Rightarrow> oink" where
  "reprioritise cfg col s =
     (if inflate cfg then s\<lparr>priority := game_inflate col (priority s)\<rparr>
      else if compress cfg then s\<lparr>priority := game_compress col (priority s)\<rparr>
      else if renumber cfg then s\<lparr>priority := game_renumber col (priority s)\<rparr>
      else s)"

definition run_solver ::
  "config \<Rightarrow> collaborators \<Rightarrow> oink \<times> globals \<Rightarrow> (error + oink \<times> globals) option" where
  "run_solver cfg col sg =
     (if solver cfg = - 1 then Some (Inr sg) else solveLoop cfg col sg)"

definition run_cycles ::
  "config \<Rightarrow> collaborators \<Rightarrow> oink \<times> globals \<Rightarrow> (error + oink \<times> globals) option" where
  "run_cycles cfg col sg =
     (if removeWCWC cfg then
        Option.bind (solveTrivialCycles (fst sg)) (\<lambda>r.
          case r of
            Inl e \<Rightarrow> Some (Inl e)
          | Inr cs \<Rightarrow> run_solver cfg col (snd cs, snd sg))
      else run_solver cfg col sg)"

definition run_loops ::
  "config \<Rightarrow> collaborators \<Rightarrow> oink \<times> globals \<Rightarrow> (error + oink \<times> globals) option" where
  "run_loops cfg col sg =
     (if removeLoops cfg then
        Option.bind (solveSelfloops (fst sg)) (\<lambda>r.
          case r of
            Inl e \<Rightarrow> Some (Inl e)
          | Inr cs \<Rightarrow> run_cycles cfg col (snd cs, snd sg))
      else run_cycles cfg col sg)"

definition run :: "config \<Rightarrow> collaborators \<Rightarrow> oink \<times> globals \<Rightarrow> (error + oink \<times> globals) option" where
  "run cfg col sg0 =
     (let sg = (reprioritise cfg col (fst sg0), snd sg0) in
      if solveSingle cfg then
        Option.bind (solveSingleParity (fst sg)) (\<lambda>r.
          case r of
            Inl e \<Rightarrow> Some (Inl e)
          | Inr bs \<Rightarrow> if fst bs then Some (Inr (snd bs, snd sg))
                      else run_loops cfg col (snd bs, snd sg))
      else run_loops cfg col sg)"

section \<open>Construction\<close>

text \<open>
  \<^verbatim>\<open>Oink::Oink(game, out)\<close> on a game that has no solution yet: the mask is clear, the
  buffer is empty and \<^verbatim>\<open>outcount[i]\<close> counts the successors of \<open>i\<close> that are not
  disabled. The arrays of the game are given as its vertex count and four
  functions.
\<close>

definition new_oink ::
  "nat \<Rightarrow> (nat \<Rightarrow> int) \<Rightarrow> (nat \<Rightarrow> int) \<Rightarrow> (nat \<Rightarrow> nat list) \<Rightarrow> (nat \<Rightarrow> nat list) \<Rightarrow> oink" where
  "new_oink n ow pr ou inp =
     \<lparr>n_nodes = n, owner = ow, priority = pr, out = ou, inn = inp,
      solved = (\<lambda>_. False), winner = (\<lambda>_. 0), strategy = (\<lambda>_. - 1),
      disabled = (\<lambda>_. False),
      outcount = (\<lambda>i. int (length (filter (\<lambda>n. \<not> False) (ou i)))),
      todo = []\<rparr>"

text \<open>An array written out as a list, for concrete games.\<close>

definition arr :: "'a \<Rightarrow> 'a list \<Rightarrow> nat \<Rightarrow> 'a" where
  "arr d xs i = (if i < length xs then xs ! i else d)"

text \<open>Two vertices pointing at each other, priorities 0 and 1.\<close>

definition game_two_parities :: oink where
  "game_two_parities =
     new_oink 2 (arr 0 [0, 1]) (arr 0 [0, 1]) (arr [] [[1], [0]]) (arr [] [[1], [0]])"

section \<open>Observations and concrete games\<close>

text \<open>The table and the counter of a process that has not run a solver yet.\<close>

definition fresh_globals :: globals where
  "fresh_globals = \<lparr>g_last_category = 0, g_memo = Map.empty\<rparr>"

text \<open>The draft strategy of a vertex after a run of the solver, if it returns.\<close>

definition zstrategy_of :: "zsolver option \<Rightarrow> nat \<Rightarrow> int option" where
  "zstrategy_of r v = map_option (\<lambda>zs. zstrategy zs v) r"

text \<open>One vertex with a loop, owned by player 0, of priority 0: player 0 wins it.\<close>

definition game_loop0 :: oink where
  "game_loop0 = new_oink 1 (arr 0 [0]) (arr 0 [0]) (arr [] [[0]]) (arr [] [[0]])"

text \<open>One vertex with a loop, owned by player 1, of priority 0: player 0 wins it.\<close>

definition game_loop1 :: oink where
  "game_loop1 = new_oink 1 (arr 0 [1]) (arr 0 [0]) (arr [] [[0]]) (arr [] [[0]])"

text \<open>No reduction, no bottom SCC, the solver of the given index; collaborators that do nothing.\<close>

definition plain_config :: "int \<Rightarrow> config" where
  "plain_config sid =
     \<lparr>inflate = False, compress = False, renumber = False, solveSingle = False,
      removeLoops = False, removeWCWC = False, bottomSCC = False, solver = sid\<rparr>"

definition plain_collaborators :: collaborators where
  "plain_collaborators =
     \<lparr>game_inflate = (\<lambda>p. p), game_compress = (\<lambda>p. p), game_renumber = (\<lambda>p. p),
      getBottomSCC = (\<lambda>s. [])\<rparr>"

text \<open>The solution of a vertex at the end of a run that returns: solved, winner, strategy.\<close>

definition solution_of :: "(error + oink \<times> globals) option \<Rightarrow> nat \<Rightarrow> (bool \<times> int \<times> int) option" where
  "solution_of r v =
     (case r of
        Some (Inr sg) \<Rightarrow> Some (solved (fst sg) v, winner (fst sg) v, strategy (fst sg) v)
      | _ \<Rightarrow> None)"

text \<open>
  Three vertices: 2 has priority 2, belongs to player 0 and loops; 0 belongs to player 1
  and can only move to 2; 1 has priority 1, belongs to player 1, loops and can move to 0.
\<close>

definition game_wcwc :: oink where
  "game_wcwc =
     new_oink 3 (arr 0 [1, 1, 0]) (arr 0 [0, 1, 2]) (arr [] [[2], [0, 1], [2]])
       (arr [] [[1], [1], [2, 0]])"

text \<open>
  What the search has done to the first three vertices: the mask, the numbers \<^verbatim>\<open>low\<close>,
  the marks \<^verbatim>\<open>done\<close>, and the stack.
\<close>

definition tc_view :: "(error + tc) option \<Rightarrow> (bool list \<times> int list \<times> int list \<times> nat list) option" where
  "tc_view r =
     (case r of
        Some (Inr t) \<Rightarrow>
          Some (map (disabled (ok t)) [0, 1, 2], map (low t) [0, 1, 2],
                map (done_arr t) [0, 1, 2], st t)
      | _ \<Rightarrow> None)"

text \<open>The first iteration of the search from root 1 in the state \<open>r\<close>, as \<^verbatim>\<open>tc_root\<close> starts it.\<close>

definition tc_first_iter_root1 :: "(error + tc) option \<Rightarrow> (error + tc) option" where
  "tc_first_iter_root1 r =
     (case r of
        Some (Inr t) \<Rightarrow> tc_iter 1 (priority (ok t) 1) (low_bit (priority (ok t) 1)) (pre t)
                          (t\<lparr>st := 1 # st t\<rparr>)
      | _ \<Rightarrow> None)"

text \<open>
  One table extends another: every entry of the first is an entry of the second, and
  what it held is the beginning of what it holds.
\<close>

definition memo_le :: "(memo_key \<Rightarrow> int list option) \<Rightarrow> (memo_key \<Rightarrow> int list option) \<Rightarrow> bool" where
  "memo_le m1 m2 \<longleftrightarrow> (\<forall>k m. m1 k = Some m \<longrightarrow> (\<exists>m'. m2 k = Some (m @ m')))"

text \<open>Whether a run returned, and the variables of the process it left.\<close>

definition returned :: "(error + oink \<times> globals) option \<Rightarrow> bool" where
  "returned r = (case r of Some (Inr sg) \<Rightarrow> True | _ \<Rightarrow> False)"

definition globals_after :: "(error + oink \<times> globals) option \<Rightarrow> globals" where
  "globals_after r = (case r of Some (Inr sg) \<Rightarrow> snd sg | _ \<Rightarrow> fresh_globals)"

text \<open>
  Two vertices that point at each other, 0 owned by player 0 and 1 by player 1. With
  priorities 2 and 1 player 0 wins both; with priorities 1 and 1 player 1 wins both.
\<close>

definition game_even_cycle :: oink where
  "game_even_cycle = new_oink 2 (arr 0 [0, 1]) (arr 0 [2, 1]) (arr [] [[1], [0]]) (arr [] [[1], [0]])"

definition game_odd_cycle :: oink where
  "game_odd_cycle = new_oink 2 (arr 0 [0, 1]) (arr 0 [1, 1]) (arr [] [[1], [0]]) (arr [] [[1], [0]])"

text \<open>The variables of a process in which \<^verbatim>\<open>epqm\<close> has solved \<open>game_even_cycle\<close>.\<close>

definition globals_after_even_cycle :: globals where
  "globals_after_even_cycle =
     globals_after (run (plain_config 5) plain_collaborators (game_even_cycle, fresh_globals))"

text \<open>Two states hold the same game graph: owners, priorities and edges.\<close>

definition same_game :: "oink \<Rightarrow> oink \<Rightarrow> bool" where
  "same_game g g' \<longleftrightarrow>
     n_nodes g' = n_nodes g \<and> owner g' = owner g \<and> priority g' = priority g \<and>
     out g' = out g \<and> inn g' = inn g"

text \<open>
  Vertex 0 belongs to player 0, has priority 0 and loops; vertex 1 belongs to player 1,
  has priority 1 and can only move to 0. The bottom SCC is vertex 0 alone.
\<close>

definition game_tail :: oink where
  "game_tail = new_oink 2 (arr 0 [0, 1]) (arr 0 [0, 1]) (arr [] [[0], [0]]) (arr [] [[0, 1], []])"

definition bottom_config :: config where
  "bottom_config = (plain_config 1)\<lparr>bottomSCC := True\<rparr>"

definition bottom_collaborators :: collaborators where
  "bottom_collaborators = plain_collaborators\<lparr>getBottomSCC := (\<lambda>s. [0])\<rparr>"

text \<open>The error a run ended with, if it did.\<close>

definition error_of :: "(error + oink \<times> globals) option \<Rightarrow> error option" where
  "error_of r = (case r of Some (Inl e) \<Rightarrow> Some e | _ \<Rightarrow> None)"

section \<open>The attractor as a set\<close>

text \<open>
  Following the words of the specification: the vertices of the subgame \<open>V\<close> from which
  player \<open>p\<close> can force the play into the target \<open>T\<close> while it remains in \<open>V\<close>. A target
  vertex is in; a vertex of \<open>p\<close> is in when it has a move into the set; a vertex of the
  opponent is in when it has a move inside \<open>V\<close> and all its moves inside \<open>V\<close> lead into the
  set.
\<close>

inductive_set attr_set :: "oink \<Rightarrow> nat set \<Rightarrow> int \<Rightarrow> nat set \<Rightarrow> nat set"
  for g :: oink and V :: "nat set" and p :: int and T :: "nat set" where
  target: "v \<in> T \<Longrightarrow> v \<in> attr_set g V p T"
| own: "v \<in> V \<Longrightarrow> owner g v = p \<Longrightarrow> w \<in> set (out g v) \<Longrightarrow> w \<in> attr_set g V p T \<Longrightarrow>
        v \<in> attr_set g V p T"
| forced: "v \<in> V \<Longrightarrow> owner g v \<noteq> p \<Longrightarrow> \<exists>w\<in>set (out g v). w \<in> V \<Longrightarrow>
           \<forall>w\<in>set (out g v). w \<in> V \<longrightarrow> w \<in> attr_set g V p T \<Longrightarrow>
           v \<in> attr_set g V p T"

text \<open>The vertices of \<open>vs\<close> that carry the category \<open>cat_yes\<close> when \<^verbatim>\<open>attractor\<close> is called.\<close>

definition attr_targets :: "nat list \<Rightarrow> int \<Rightarrow> zsolver \<Rightarrow> nat set" where
  "attr_targets vs cat_yes zs = {v \<in> set vs. vtype zs v = cat_yes}"

text \<open>
  The in-lists mirror the out-lists on the vertices of \<open>vs\<close>: \<open>u\<close> occurs in \<^verbatim>\<open>in[v]\<close> as
  often as \<open>v\<close> occurs in \<^verbatim>\<open>out[u]\<close>.
\<close>

definition edges_mirrored :: "oink \<Rightarrow> nat list \<Rightarrow> bool" where
  "edges_mirrored g vs \<longleftrightarrow>
     (\<forall>u\<in>set vs. \<forall>v\<in>set vs. count_list (inn g v) u = count_list (out g u) v)"

text \<open>
  What holds of the queue and the solver while the worklist runs, when \<open>E\<close> lists the
  predecessors visited so far, one entry for each decrement, and \<open>d0\<close> is \<^verbatim>\<open>degs\<close> as the
  first loop left it. The queue holds each vertex once: the targets, and every vertex whose
  counter has reached zero. Every other counter is its first value less the visits. A
  vertex of the queue has the category \<open>cat_yes\<close>, every other vertex the category it had.
  A vertex that entered the queue has a strategy, an earlier vertex of the queue among its
  successors if it belongs to \<open>p\<close> and \<open>-1\<close> if not; all other strategies are untouched.
  The queue is within the attractor set.
\<close>

definition attr_inv ::
  "oink \<Rightarrow> nat list \<Rightarrow> int \<Rightarrow> int \<Rightarrow> zsolver \<Rightarrow> (nat \<Rightarrow> int) \<Rightarrow> nat list \<Rightarrow> nat list \<times> zsolver \<Rightarrow> bool" where
  "attr_inv g vs p cat_yes zs d0 E qz \<longleftrightarrow>
     distinct (fst qz) \<and>
     set (fst qz) = attr_targets vs cat_yes zs \<union> {w. 1 \<le> d0 w \<and> d0 w \<le> int (count_list E w)} \<and>
     (\<forall>w. degs (snd qz) w = d0 w - int (count_list E w)) \<and>
     (\<forall>w. vtype (snd qz) w = (if w \<in> set (fst qz) then cat_yes else vtype zs w)) \<and>
     (\<forall>w. w \<notin> set (fst qz) \<or> w \<in> attr_targets vs cat_yes zs \<longrightarrow>
          zstrategy (snd qz) w = zstrategy zs w) \<and>
     (\<forall>k<length (fst qz). fst qz ! k \<notin> attr_targets vs cat_yes zs \<longrightarrow>
          (if owner g (fst qz ! k) = p
           then \<exists>j<k. zstrategy (snd qz) (fst qz ! k) = int (fst qz ! j) \<and>
                      fst qz ! j \<in> set (out g (fst qz ! k))
           else zstrategy (snd qz) (fst qz ! k) = - 1)) \<and>
     set (fst qz) \<subseteq> attr_set g (set vs) p (attr_targets vs cat_yes zs)"

text \<open>
  The counters after the first loop of \<^verbatim>\<open>attractor\<close>: one for a vertex of \<open>p\<close>, the
  number of successors inside \<open>vs\<close> for a vertex of the opponent; target vertices and vertices
  outside \<open>vs\<close> keep the counter they had.
\<close>

definition attr_degs :: "oink \<Rightarrow> nat list \<Rightarrow> int \<Rightarrow> int \<Rightarrow> zsolver \<Rightarrow> nat \<Rightarrow> int" where
  "attr_degs g vs p cat_yes zs w =
     (if w \<in> set vs \<and> vtype zs w \<noteq> cat_yes
      then (if owner g w = p then 1 else int (length (filter (\<lambda>x. x \<in> set vs) (out g w))))
      else degs zs w)"

text \<open>
  What \<^verbatim>\<open>attractor\<close> relies on: its stated precondition on \<^verbatim>\<open>vtype\<close>, a list \<open>vs\<close> without
  repetition over a game whose in-lists mirror its out-lists, and the scratch array
  \<^verbatim>\<open>degs\<close> as \<^verbatim>\<open>degs.resize(g->n_nodes, -1)\<close> and the last loop of every earlier call leave
  it, negative everywhere.
\<close>

definition attr_pre :: "oink \<Rightarrow> nat list \<Rightarrow> int \<Rightarrow> int \<Rightarrow> zsolver \<Rightarrow> bool" where
  "attr_pre g vs cat_no cat_yes zs \<longleftrightarrow>
     edges_mirrored g vs \<and> distinct vs \<and>
     (\<forall>x. (vtype zs x = cat_no \<or> vtype zs x = cat_yes) \<longleftrightarrow> x \<in> set vs) \<and>
     (\<forall>w. degs zs w < 0)"

text \<open>
  A chain of three vertices for the attractor: vertex 0 of player 0 moves to vertex 1,
  vertex 1 of player 1 moves to 0 or 2, vertex 2 loops. Vertex 2 carries the category 1,
  the other two the category 0, and every vertex outside the game the category 7.
\<close>

definition game_chain :: oink where
  "game_chain = new_oink 3 (arr 0 [0, 1, 0]) (arr 0 [0, 0, 0])
                  (arr [] [[1], [0, 2], [2]]) (arr [] [[1], [0], [1, 2]])"

definition chain_solver :: zsolver where
  "chain_solver = (new_zsolver 0 fresh_globals)\<lparr>vtype := arr 7 [0, 0, 1]\<rparr>"

section \<open>Well-formed games and solved states\<close>

text \<open>
  The game a driver state holds is well formed when, for every vertex below \<^verbatim>\<open>n_nodes\<close>: the
  owner is 0 or 1, there is an outgoing edge, the successors and the predecessors are
  vertices of the game, and the in-lists mirror the out-lists.
\<close>

definition wf_game :: "oink \<Rightarrow> bool" where
  "wf_game g \<longleftrightarrow>
     (\<forall>v<n_nodes g. (owner g v = 0 \<or> owner g v = 1) \<and> out g v \<noteq> [] \<and>
                     (\<forall>u\<in>set (out g v). u < n_nodes g) \<and> (\<forall>u\<in>set (inn g v). u < n_nodes g)) \<and>
     (\<forall>u<n_nodes g. \<forall>v<n_nodes g. count_list (inn g v) u = count_list (out g u) v)"

text \<open>
  What every step of the driver keeps: the number of vertices \<open>n\<close>, the owners \<open>ow\<close>, and a
  winner that is 0 or 1 at every solved vertex.
\<close>

definition winners_inv :: "nat \<Rightarrow> (nat \<Rightarrow> int) \<Rightarrow> oink \<Rightarrow> bool" where
  "winners_inv n ow s \<longleftrightarrow>
     n_nodes s = n \<and> owner s = ow \<and> (\<forall>v. solved s v \<longrightarrow> winner s v = 0 \<or> winner s v = 1)"

text \<open>
  What holds while \<^verbatim>\<open>flush\<close> empties the buffer after the second loop of
  \<^verbatim>\<open>solveSingleParity\<close> has given every vertex it solved to player \<open>p\<close>, over the game of the
  state \<open>g\<close>. The buffer holds solved vertices, each once, and none of them is marked \<open>-1\<close>;
  every solved vertex is a vertex of the game won by \<open>p\<close>, and every unsolved one belongs
  to \<open>p\<close>. A solved vertex that has left the buffer has all its predecessors solved, the
  vertices of \<open>X\<close> excepted (the vertex whose predecessors are being visited). Every vertex
  is solved or has a solved successor.
\<close>

definition flush_inv :: "int \<Rightarrow> oink \<Rightarrow> nat set \<Rightarrow> oink \<Rightarrow> bool" where
  "flush_inv p g X s \<longleftrightarrow>
     n_nodes s = n_nodes g \<and> owner s = owner g \<and> out s = out g \<and> inn s = inn g \<and>
     distinct (todo s) \<and>
     (\<forall>v. v \<in> set (todo s) \<longrightarrow> solved s v) \<and>
     (\<forall>v. outcount s v = - 1 \<longrightarrow> solved s v \<and> v \<notin> set (todo s)) \<and>
     (\<forall>v. solved s v \<longrightarrow> v < n_nodes g \<and> winner s v = p) \<and>
     (\<forall>v. v < n_nodes g \<and> \<not> solved s v \<longrightarrow> owner g v = p) \<and>
     (\<forall>v u. solved s v \<and> v \<notin> set (todo s) \<and> v \<notin> X \<and> u \<in> set (inn g v) \<longrightarrow> solved s u) \<and>
     (\<forall>v. v < n_nodes g \<and> \<not> solved s v \<longrightarrow> (\<exists>u. u \<in> set (out g v) \<and> solved s u))"

text \<open>
  What holds during the second loop of \<^verbatim>\<open>solveSingleParity\<close> with the parity \<open>p\<close>, started on
  the state \<open>g\<close>: the mask is the set of solved vertices, which are the vertices in the
  buffer, each once and each won by \<open>p\<close>; \<^verbatim>\<open>outcount\<close> is untouched.
\<close>

definition single_inv :: "int \<Rightarrow> oink \<Rightarrow> oink \<Rightarrow> bool" where
  "single_inv p g s \<longleftrightarrow>
     n_nodes s = n_nodes g \<and> owner s = owner g \<and> out s = out g \<and> inn s = inn g \<and>
     outcount s = outcount g \<and> disabled s = solved s \<and>
     distinct (todo s) \<and> (\<forall>v. v \<in> set (todo s) \<longleftrightarrow> solved s v) \<and>
     (\<forall>v. solved s v \<longrightarrow> v < n_nodes g \<and> winner s v = p)"

text \<open>The solver \<^verbatim>\<open>epq\<close> with \<^verbatim>\<open>solveSingle\<close> set and no other reduction.\<close>

definition single_config :: config where
  "single_config = (plain_config 4)\<lparr>solveSingle := True\<rparr>"

section \<open>Evaluation on concrete games\<close>

text \<open>
  The equations of the loops serve as code equations, and with the other defining
  equations they are what running the model on a concrete game unfolds.
\<close>

declare flush.simps [code] attr_loop.simps [code] zrun.simps [code]
  tc_back.simps [code] tc_search.simps [code] solveLoop.simps [code]

lemmas oink_eval =
  Let_def new_oink_def arr_def low_bit_def solve_def flush_in_def flush.simps

lemmas zsolver_eval =
  zielonka_def memoize_def quick_priority_def auto_reduce_def
  attr_init_def attr_edge_def attr_loop.simps attractor_def
  prec_at_def prec_dec_def memo_load_def memo_record_def concede_entry_def concede_sub_def
  mark_hiprio_def verdict_def fill_hiprio_def zrun.simps
  new_zsolver_def experimental_zrun_def experimental_run_def absorb_def fresh_globals_def

lemmas reduction_eval =
  single_parity_vertex_def solveSingleParity_def selfloop_vertex_def solveSelfloops_def
  tc_back_edge_def tc_back.simps tc_iter_def tc_search.simps tc_root_def tc_init_def
  solveTrivialCycles_def

lemmas driver_eval =
  solver_flags_def gameSolved_def set_mask_def solveLoop.simps reprioritise_def
  run_solver_def run_cycles_def run_loops_def run_def plain_config_def plain_collaborators_def

section \<open>What the solver keeps\<close>

lemma fold_invariant:
  assumes "P s" and "\<And>x s. x \<in> set xs \<Longrightarrow> P s \<Longrightarrow> P (f x s)"
  shows "P (fold f xs s)"
  using assms by (induction xs arbitrary: s) auto

lemma bind_case_sum_Inr:
  assumes "Option.bind m (\<lambda>r. case r of Inl e \<Rightarrow> Some (Inl e) | Inr x \<Rightarrow> f x) = Some (Inr y)"
  obtains x where "m = Some (Inr x)" and "f x = Some (Inr y)"
proof (cases m)
  case None
  with assms show ?thesis by simp
next
  case (Some r)
  with assms that show ?thesis by (cases r) auto
qed

lemma memo_le_refl: "memo_le m m"
  by (simp add: memo_le_def)

lemma memo_le_trans: "memo_le m1 m2 \<Longrightarrow> memo_le m2 m3 \<Longrightarrow> memo_le m1 m3"
  unfolding memo_le_def by (metis append.assoc)

lemma attr_init_keeps:
  "memo (snd (attr_init g whose cat_no cat_yes v qz)) = memo (snd qz) \<and>
   flags (snd (attr_init g whose cat_no cat_yes v qz)) = flags (snd qz)"
  by (simp add: attr_init_def Let_def)

lemma attr_edge_keeps:
  "memo (snd (attr_edge g whose cat_yes v w qz)) = memo (snd qz) \<and>
   flags (snd (attr_edge g whose cat_yes v w qz)) = flags (snd qz)"
  by (simp add: attr_edge_def Let_def)

lemma attr_loop_keeps:
  assumes "attr_loop g whose cat_yes i qz = Some qz'"
  shows "memo (snd qz') = memo (snd qz) \<and> flags (snd qz') = flags (snd qz)"
proof (rule attr_loop.raw_induct
    [where P = "\<lambda>g whose cat_yes i qz qz'.
                  memo (snd qz') = memo (snd qz) \<and> flags (snd qz') = flags (snd qz)",
     OF _ assms])
  fix loop :: "oink \<Rightarrow> int \<Rightarrow> int \<Rightarrow> nat \<Rightarrow> nat list \<times> zsolver \<Rightarrow> (nat list \<times> zsolver) option"
    and g :: oink and whose cat_yes :: int and i :: nat and qz qz' :: "nat list \<times> zsolver"
  assume IH: "\<And>g whose cat_yes i qz qz'. loop g whose cat_yes i qz = Some qz' \<Longrightarrow>
                memo (snd qz') = memo (snd qz) \<and> flags (snd qz') = flags (snd qz)"
    and body: "(if i < length (fst qz)
                then loop g whose cat_yes (i + 1)
                       (fold (attr_edge g whose cat_yes (fst qz ! i)) (inn g (fst qz ! i)) qz)
                else Some qz) = Some qz'"
  have keep: "memo (snd (fold (attr_edge g whose cat_yes v) ws qz)) = memo (snd qz) \<and>
              flags (snd (fold (attr_edge g whose cat_yes v) ws qz)) = flags (snd qz)" for v ws
    by (rule fold_invariant [where P = "\<lambda>q. memo (snd q) = memo (snd qz) \<and> flags (snd q) = flags (snd qz)"])
       (simp_all add: attr_edge_keeps)
  show "memo (snd qz') = memo (snd qz) \<and> flags (snd qz') = flags (snd qz)"
  proof (cases "i < length (fst qz)")
    case True
    with body IH show ?thesis using keep by fastforce
  next
    case False
    with body show ?thesis by simp
  qed
qed

lemma attractor_keeps:
  assumes "attractor g vs whose cat_no cat_yes zs = Some zs'"
  shows "memo zs' = memo zs \<and> flags zs' = flags zs"
proof -
  let ?q0 = "fold (attr_init g whose cat_no cat_yes) vs ([], zs)"
  from assms obtain qz where loop: "attr_loop g whose cat_yes 0 ?q0 = Some qz"
    and zs': "zs' = (snd qz)\<lparr>degs := fold (\<lambda>v d. d(v := - 1)) vs (degs (snd qz))\<rparr>"
    by (auto simp: attractor_def Option.bind_eq_Some_conv)
  have "memo (snd ?q0) = memo zs \<and> flags (snd ?q0) = flags zs"
    by (rule fold_invariant [where P = "\<lambda>q. memo (snd q) = memo zs \<and> flags (snd q) = flags zs"])
       (simp_all add: attr_init_keeps)
  with attr_loop_keeps [OF loop] zs' show ?thesis by simp
qed

lemma mark_hiprio_keeps [simp]:
  "memo (mark_hiprio g vs maxprio c zs) = memo zs"
  "flags (mark_hiprio g vs maxprio c zs) = flags zs"
  unfolding mark_hiprio_def
  by (rule fold_invariant [where P = "\<lambda>z. memo z = memo zs"], simp, simp)
     (rule fold_invariant [where P = "\<lambda>z. flags z = flags zs"], simp, simp)

lemma fill_hiprio_keeps [simp]:
  "memo (fill_hiprio g vs maxprio us c zs) = memo zs"
  "flags (fill_hiprio g vs maxprio us c zs) = flags zs"
proof -
  have inner: "memo (fold (\<lambda>e z'. if vtype z' e = c
                         then z'\<lparr>zstrategy := (zstrategy z')(v := int e)\<rparr> else z') es z) = memo z \<and>
        flags (fold (\<lambda>e z'. if vtype z' e = c
                         then z'\<lparr>zstrategy := (zstrategy z')(v := int e)\<rparr> else z') es z) = flags z"
    for v es z
    by (rule fold_invariant [where P = "\<lambda>z'. memo z' = memo z \<and> flags z' = flags z"]) simp_all
  have "memo (fill_hiprio g vs maxprio us c zs) = memo zs \<and>
        flags (fill_hiprio g vs maxprio us c zs) = flags zs"
    unfolding fill_hiprio_def
    by (rule fold_invariant [where P = "\<lambda>z. memo z = memo zs \<and> flags z = flags zs"])
       (simp_all add: inner)
  then show "memo (fill_hiprio g vs maxprio us c zs) = memo zs"
    and "flags (fill_hiprio g vs maxprio us c zs) = flags zs" by simp_all
qed

lemma verdict_keeps [simp]:
  "memo (fst (fold (verdict g us c1 c2) vs zw)) = memo (fst zw)"
  "flags (fst (fold (verdict g us c1 c2) vs zw)) = flags (fst zw)"
proof -
  have "memo (fst (fold (verdict g us c1 c2) vs zw)) = memo (fst zw) \<and>
        flags (fst (fold (verdict g us c1 c2) vs zw)) = flags (fst zw)"
    by (rule fold_invariant [where P = "\<lambda>q. memo (fst q) = memo (fst zw) \<and> flags (fst q) = flags (fst zw)"])
       (simp_all add: verdict_def Let_def)
  then show "memo (fst (fold (verdict g us c1 c2) vs zw)) = memo (fst zw)"
    and "flags (fst (fold (verdict g us c1 c2) vs zw)) = flags (fst zw)" by simp_all
qed

lemma memo_record_extends:
  "flags (memo_record p vs zs) = flags zs" "memo_le (memo zs) (memo (memo_record p vs zs))"
  by (auto simp: memo_record_def memo_le_def split: option.splits)

section \<open>An induction rule for the frames of \<^verbatim>\<open>zsolver::run\<close>\<close>

text \<open>
  A property of a frame and its result holds for every frame that returns, if it holds
  for a frame answered from the table, for the empty frame, for a frame conceded at its
  entry, and if it carries over from the recursive calls to the frame in the three ways a
  frame can end: by starting again in mode 1, by filling in the top priority, or by a
  last call on what is left after the opponent's attractor.
\<close>

lemma zrun_frame_induct [consumes 1, case_names hit empty conceded restart fill push]:
  fixes P :: "oink \<Rightarrow> nat list \<Rightarrow> int \<Rightarrow> int \<times> int \<Rightarrow> int \<Rightarrow> int \<Rightarrow> zsolver \<Rightarrow> zsolver \<Rightarrow> bool"
  assumes run: "zrun g vs cat_base precision mode mprio zs0 = Some r"
  and hit: "\<And>g vs cat_base precision mode mprio zs0 m.
      flags zs0 AND memoize \<noteq> 0 \<Longrightarrow> memo zs0 (precision, vs) = Some m \<Longrightarrow>
      P g vs cat_base precision mode mprio zs0 (memo_load vs m zs0)"
  and empty: "\<And>g cat_base precision mode mprio zs0.
      \<not> (flags zs0 AND memoize \<noteq> 0 \<and> memo zs0 (precision, []) \<noteq> None) \<Longrightarrow>
      P g [] cat_base precision mode mprio zs0 (zs0\<lparr>iters := iters zs0 + 1\<rparr>)"
  and conceded: "\<And>g vs cat_base precision mode mprio zs0 maxprio.
      \<not> (flags zs0 AND memoize \<noteq> 0 \<and> memo zs0 (precision, vs) \<noteq> None) \<Longrightarrow>
      vs \<noteq> [] \<Longrightarrow>
      maxprio = (if mprio < 0 then fold (\<lambda>v m. max m (priority g v)) vs mprio else mprio) \<Longrightarrow>
      prec_at precision (low_bit maxprio) \<le> 0 \<Longrightarrow>
      P g vs cat_base precision mode mprio zs0
        (concede_entry g vs maxprio (zs0\<lparr>iters := iters zs0 + 1\<rparr>))"
  and restart: "\<And>g vs cat_base precision mode mprio zs0 maxprio us opponent cat_hiprio zs3
        subprecision subgame zs4 cat_opponent_wins zw r.
      \<not> (flags zs0 AND memoize \<noteq> 0 \<and> memo zs0 (precision, vs) \<noteq> None) \<Longrightarrow>
      vs \<noteq> [] \<Longrightarrow>
      maxprio = (if mprio < 0 then fold (\<lambda>v m. max m (priority g v)) vs mprio else mprio) \<Longrightarrow>
      us = low_bit maxprio \<Longrightarrow> opponent = 1 - us \<Longrightarrow>
      \<not> prec_at precision us \<le> 0 \<Longrightarrow>
      cat_hiprio = last_category zs0 \<Longrightarrow>
      attractor g vs us cat_base cat_hiprio
        (mark_hiprio g vs maxprio cat_hiprio
           (zs0\<lparr>iters := iters zs0 + 1, last_category := last_category zs0 + 1\<rparr>)) = Some zs3 \<Longrightarrow>
      subprecision = (if mode = 0 \<or> mode = 2 then prec_dec precision opponent else precision) \<Longrightarrow>
      subgame = filter (\<lambda>v. vtype zs3 v = cat_base) vs \<Longrightarrow>
      (prec_at subprecision opponent = 0 \<Longrightarrow> zs4 = concede_sub g vs us zs3) \<Longrightarrow>
      (prec_at subprecision opponent \<noteq> 0 \<Longrightarrow>
         P g subgame cat_base subprecision (if mode = 3 then 3 else 0) (mprio - 1) zs3 zs4) \<Longrightarrow>
      cat_opponent_wins = last_category zs4 \<Longrightarrow>
      zw = fold (verdict g us cat_hiprio cat_opponent_wins) subgame
             (zs4\<lparr>last_category := last_category zs4 + 1\<rparr>, True) \<Longrightarrow>
      snd zw \<Longrightarrow> mode = 0 \<Longrightarrow>
      P g vs cat_hiprio precision 1 mprio (fst zw) r \<Longrightarrow>
      P g vs cat_base precision mode mprio zs0 r"
  and fill: "\<And>g vs cat_base precision mode mprio zs0 maxprio us opponent cat_hiprio zs3
        subprecision subgame zs4 cat_opponent_wins zw.
      \<not> (flags zs0 AND memoize \<noteq> 0 \<and> memo zs0 (precision, vs) \<noteq> None) \<Longrightarrow>
      vs \<noteq> [] \<Longrightarrow>
      maxprio = (if mprio < 0 then fold (\<lambda>v m. max m (priority g v)) vs mprio else mprio) \<Longrightarrow>
      us = low_bit maxprio \<Longrightarrow> opponent = 1 - us \<Longrightarrow>
      \<not> prec_at precision us \<le> 0 \<Longrightarrow>
      cat_hiprio = last_category zs0 \<Longrightarrow>
      attractor g vs us cat_base cat_hiprio
        (mark_hiprio g vs maxprio cat_hiprio
           (zs0\<lparr>iters := iters zs0 + 1, last_category := last_category zs0 + 1\<rparr>)) = Some zs3 \<Longrightarrow>
      subprecision = (if mode = 0 \<or> mode = 2 then prec_dec precision opponent else precision) \<Longrightarrow>
      subgame = filter (\<lambda>v. vtype zs3 v = cat_base) vs \<Longrightarrow>
      (prec_at subprecision opponent = 0 \<Longrightarrow> zs4 = concede_sub g vs us zs3) \<Longrightarrow>
      (prec_at subprecision opponent \<noteq> 0 \<Longrightarrow>
         P g subgame cat_base subprecision (if mode = 3 then 3 else 0) (mprio - 1) zs3 zs4) \<Longrightarrow>
      cat_opponent_wins = last_category zs4 \<Longrightarrow>
      zw = fold (verdict g us cat_hiprio cat_opponent_wins) subgame
             (zs4\<lparr>last_category := last_category zs4 + 1\<rparr>, True) \<Longrightarrow>
      snd zw \<Longrightarrow> mode \<noteq> 0 \<Longrightarrow>
      P g vs cat_base precision mode mprio zs0
        (memo_record precision vs (fill_hiprio g vs maxprio us cat_hiprio (fst zw)))"
  and push: "\<And>g vs cat_base precision mode mprio zs0 maxprio us opponent cat_hiprio zs3
        subprecision subgame zs4 cat_opponent_wins zw zs6 zs7.
      \<not> (flags zs0 AND memoize \<noteq> 0 \<and> memo zs0 (precision, vs) \<noteq> None) \<Longrightarrow>
      vs \<noteq> [] \<Longrightarrow>
      maxprio = (if mprio < 0 then fold (\<lambda>v m. max m (priority g v)) vs mprio else mprio) \<Longrightarrow>
      us = low_bit maxprio \<Longrightarrow> opponent = 1 - us \<Longrightarrow>
      \<not> prec_at precision us \<le> 0 \<Longrightarrow>
      cat_hiprio = last_category zs0 \<Longrightarrow>
      attractor g vs us cat_base cat_hiprio
        (mark_hiprio g vs maxprio cat_hiprio
           (zs0\<lparr>iters := iters zs0 + 1, last_category := last_category zs0 + 1\<rparr>)) = Some zs3 \<Longrightarrow>
      subprecision = (if mode = 0 \<or> mode = 2 then prec_dec precision opponent else precision) \<Longrightarrow>
      subgame = filter (\<lambda>v. vtype zs3 v = cat_base) vs \<Longrightarrow>
      (prec_at subprecision opponent = 0 \<Longrightarrow> zs4 = concede_sub g vs us zs3) \<Longrightarrow>
      (prec_at subprecision opponent \<noteq> 0 \<Longrightarrow>
         P g subgame cat_base subprecision (if mode = 3 then 3 else 0) (mprio - 1) zs3 zs4) \<Longrightarrow>
      cat_opponent_wins = last_category zs4 \<Longrightarrow>
      zw = fold (verdict g us cat_hiprio cat_opponent_wins) subgame
             (zs4\<lparr>last_category := last_category zs4 + 1\<rparr>, True) \<Longrightarrow>
      \<not> snd zw \<Longrightarrow>
      attractor g vs opponent cat_hiprio cat_opponent_wins (fst zw) = Some zs6 \<Longrightarrow>
      P g (filter (\<lambda>v. vtype zs6 v = cat_hiprio) vs) cat_hiprio precision
        (if mode = 1 then 2 else mode) mprio zs6 zs7 \<Longrightarrow>
      P g vs cat_base precision mode mprio zs0 (memo_record precision vs zs7)"
  shows "P g vs cat_base precision mode mprio zs0 r"
proof (rule zrun.raw_induct [where P = P, OF _ run])
  fix zr :: "oink \<Rightarrow> nat list \<Rightarrow> int \<Rightarrow> int \<times> int \<Rightarrow> int \<Rightarrow> int \<Rightarrow> zsolver \<Rightarrow> zsolver option"
    and g :: oink and vs :: "nat list" and cat_base :: int and precision :: "int \<times> int"
    and mode mprio :: int and zs0 r :: zsolver
  assume IH: "\<And>g vs cat_base precision mode mprio zs r.
      zr g vs cat_base precision mode mprio zs = Some r \<Longrightarrow>
      P g vs cat_base precision mode mprio zs r"
  define maxprio where
    "maxprio = (if mprio < 0 then fold (\<lambda>v m. max m (priority g v)) vs mprio else mprio)"
  define us where "us = low_bit maxprio"
  define opponent where "opponent = 1 - us"
  define zs1 where "zs1 = zs0\<lparr>iters := iters zs0 + 1\<rparr>"
  define cat_hiprio where "cat_hiprio = last_category zs1"
  define zs2 where "zs2 = mark_hiprio g vs maxprio cat_hiprio
                            (zs1\<lparr>last_category := last_category zs1 + 1\<rparr>)"
  have cat_hiprio: "cat_hiprio = last_category zs0"
    by (simp add: cat_hiprio_def zs1_def)
  have zs2: "zs2 = mark_hiprio g vs maxprio cat_hiprio
                     (zs0\<lparr>iters := iters zs0 + 1, last_category := last_category zs0 + 1\<rparr>)"
    by (simp add: zs2_def zs1_def)
  define subprecision where
    "subprecision = (if mode = 0 \<or> mode = 2 then prec_dec precision opponent else precision)"
  define first where "first = (\<lambda>zs3 :: zsolver.
      if prec_at subprecision opponent = 0 then Some (concede_sub g vs us zs3)
      else zr g (filter (\<lambda>v. vtype zs3 v = cat_base) vs) cat_base subprecision
             (if mode = 3 then 3 else 0) (mprio - 1) zs3)"
  define zwf where "zwf = (\<lambda>(zs3 :: zsolver) (zs4 :: zsolver).
      fold (verdict g us cat_hiprio (last_category zs4)) (filter (\<lambda>v. vtype zs3 v = cat_base) vs)
        (zs4\<lparr>last_category := last_category zs4 + 1\<rparr>, True))"
  define tail where "tail = (\<lambda>(zs3 :: zsolver) (zs4 :: zsolver).
      if snd (zwf zs3 zs4) then
        (if mode = 0 then zr g vs cat_hiprio precision 1 mprio (fst (zwf zs3 zs4))
         else Some (memo_record precision vs
                      (fill_hiprio g vs maxprio us cat_hiprio (fst (zwf zs3 zs4)))))
      else
        Option.bind (attractor g vs opponent cat_hiprio (last_category zs4) (fst (zwf zs3 zs4)))
          (\<lambda>zs6. Option.bind
                    (zr g (filter (\<lambda>v. vtype zs6 v = cat_hiprio) vs) cat_hiprio precision
                       (if mode = 1 then 2 else mode) mprio zs6)
                    (\<lambda>zs7. Some (memo_record precision vs zs7))))"
  assume "(if flags zs0 AND memoize \<noteq> 0 \<and> memo zs0 (precision, vs) \<noteq> None then
        Some (memo_load vs (the (memo zs0 (precision, vs))) zs0)
      else
        (let zs1 = zs0\<lparr>iters := iters zs0 + 1\<rparr> in
         if vs = [] then Some zs1
         else
           (let maxprio = (if mprio < 0 then fold (\<lambda>v m. max m (priority g v)) vs mprio
                           else mprio);
                us = low_bit maxprio;
                opponent = 1 - us
            in
            if prec_at precision us \<le> 0 then Some (concede_entry g vs maxprio zs1)
            else
              (let cat_hiprio = last_category zs1;
                   zs2 = mark_hiprio g vs maxprio cat_hiprio
                           (zs1\<lparr>last_category := last_category zs1 + 1\<rparr>)
               in
               Option.bind (attractor g vs us cat_base cat_hiprio zs2) (\<lambda>zs3.
                 let subprecision = (if mode = 0 \<or> mode = 2 then prec_dec precision opponent
                                     else precision);
                     subgame = filter (\<lambda>v. vtype zs3 v = cat_base) vs
                 in
                 Option.bind
                   (if prec_at subprecision opponent = 0 then Some (concede_sub g vs us zs3)
                    else zr g subgame cat_base subprecision (if mode = 3 then 3 else 0)
                           (mprio - 1) zs3)
                   (\<lambda>zs4.
                     let cat_opponent_wins = last_category zs4;
                         zw = fold (verdict g us cat_hiprio cat_opponent_wins) subgame
                                (zs4\<lparr>last_category := last_category zs4 + 1\<rparr>, True);
                         zs5 = fst zw;
                         subgame_won = snd zw
                     in
                     if subgame_won then
                       (if mode = 0 then zr g vs cat_hiprio precision 1 mprio zs5
                        else Some (memo_record precision vs
                                     (fill_hiprio g vs maxprio us cat_hiprio zs5)))
                     else
                       Option.bind (attractor g vs opponent cat_hiprio cat_opponent_wins zs5)
                         (\<lambda>zs6.
                           Option.bind
                             (zr g (filter (\<lambda>v. vtype zs6 v = cat_hiprio) vs) cat_hiprio
                                precision (if mode = 1 then 2 else mode) mprio zs6)
                             (\<lambda>zs7. Some (memo_record precision vs zs7))))))))) = Some r"
  then have "(if flags zs0 AND memoize \<noteq> 0 \<and> memo zs0 (precision, vs) \<noteq> None then
        Some (memo_load vs (the (memo zs0 (precision, vs))) zs0)
      else if vs = [] then Some zs1
      else if prec_at precision us \<le> 0 then Some (concede_entry g vs maxprio zs1)
      else Option.bind (attractor g vs us cat_base cat_hiprio zs2)
             (\<lambda>zs3. Option.bind (first zs3) (tail zs3))) = Some r"
    unfolding maxprio_def us_def opponent_def cat_hiprio_def zs2_def zs1_def subprecision_def
      first_def zwf_def tail_def Let_def .
  then have body: "(if flags zs0 AND memoize \<noteq> 0 \<and> memo zs0 (precision, vs) \<noteq> None then
        Some (memo_load vs (the (memo zs0 (precision, vs))) zs0)
      else if vs = [] then Some (zs0\<lparr>iters := iters zs0 + 1\<rparr>)
      else if prec_at precision us \<le> 0
        then Some (concede_entry g vs maxprio (zs0\<lparr>iters := iters zs0 + 1\<rparr>))
      else Option.bind (attractor g vs us cat_base cat_hiprio zs2)
             (\<lambda>zs3. Option.bind (first zs3) (tail zs3))) = Some r"
    unfolding zs1_def .
  show "P g vs cat_base precision mode mprio zs0 r"
  proof (cases "flags zs0 AND memoize \<noteq> 0 \<and> memo zs0 (precision, vs) \<noteq> None")
    case True
    then obtain m where m: "memo zs0 (precision, vs) = Some m" by auto
    with body True have "r = memo_load vs m zs0" by simp
    with hit [of zs0 precision vs m] True m show ?thesis by simp
  next
    case miss: False
    show ?thesis
    proof (cases "vs = []")
      case True
      with body miss have "r = zs0\<lparr>iters := iters zs0 + 1\<rparr>" by auto
      with empty [of zs0 precision] miss True show ?thesis by simp
    next
      case ne: False
      show ?thesis
      proof (cases "prec_at precision us \<le> 0")
        case True
        with body miss ne have "r = concede_entry g vs maxprio (zs0\<lparr>iters := iters zs0 + 1\<rparr>)"
          by auto
        with conceded [OF miss ne maxprio_def] True show ?thesis by (simp add: us_def)
      next
        case prec: False
        with body miss ne obtain zs3 zs4 where
          a1: "attractor g vs us cat_base cat_hiprio zs2 = Some zs3"
          and f: "first zs3 = Some zs4" and t: "tail zs3 zs4 = Some r"
          by (auto simp: Option.bind_eq_Some_conv)
        define subgame where "subgame = filter (\<lambda>v. vtype zs3 v = cat_base) vs"
        define zw where "zw = zwf zs3 zs4"
        have zw: "zw = fold (verdict g us cat_hiprio (last_category zs4)) subgame
                         (zs4\<lparr>last_category := last_category zs4 + 1\<rparr>, True)"
          by (simp add: zw_def zwf_def subgame_def)
        have c1: "prec_at subprecision opponent = 0 \<Longrightarrow> zs4 = concede_sub g vs us zs3"
          using f by (simp add: first_def)
        have c2: "prec_at subprecision opponent \<noteq> 0 \<Longrightarrow>
            P g subgame cat_base subprecision (if mode = 3 then 3 else 0) (mprio - 1) zs3 zs4"
          using f IH by (simp add: first_def subgame_def)
        note common = miss ne maxprio_def us_def opponent_def prec cat_hiprio
          a1 [unfolded zs2] subprecision_def subgame_def c1 c2 refl zw
        show ?thesis
        proof (cases "snd zw")
          case won: True
          show ?thesis
          proof (cases "mode = 0")
            case True
            with t won have "zr g vs cat_hiprio precision 1 mprio (fst zw) = Some r"
              by (simp add: tail_def zw_def)
            from restart [OF common won True IH [OF this]] show ?thesis .
          next
            case False
            with t won have "r = memo_record precision vs
                                  (fill_hiprio g vs maxprio us cat_hiprio (fst zw))"
              by (simp add: tail_def zw_def)
            with fill [OF common won False] show ?thesis by simp
          qed
        next
          case lost: False
          with t obtain zs6 zs7 where
            a2: "attractor g vs opponent cat_hiprio (last_category zs4) (fst zw) = Some zs6"
            and c3: "zr g (filter (\<lambda>v. vtype zs6 v = cat_hiprio) vs) cat_hiprio precision
                       (if mode = 1 then 2 else mode) mprio zs6 = Some zs7"
            and r: "r = memo_record precision vs zs7"
            by (auto simp: tail_def zw_def Option.bind_eq_Some_conv)
          from push [OF common lost a2 IH [OF c3]] r show ?thesis by simp
        qed
      qed
    qed
  qed
qed


text \<open>
  The other direction: a frame that is not answered from the table, is not empty and is
  not conceded at its entry, whose first attractor and first call return, continues as
  the rest of the frame does.
\<close>

lemma zrun_frame_eq:
  fixes g :: oink and vs :: "nat list" and cat_base mode mprio :: int
    and precision :: "int \<times> int" and zs0 zs3 zs4 :: zsolver
  assumes mp: "maxprio = (if mprio < 0 then fold (\<lambda>v m. max m (priority g v)) vs mprio else mprio)"
    and us: "us = low_bit maxprio"
    and opp: "opponent = 1 - us"
    and ch: "cat_hiprio = last_category zs0"
    and sp: "subprecision =
               (if mode = 0 \<or> mode = 2 then prec_dec precision opponent else precision)"
    and sub: "subgame = filter (\<lambda>v. vtype zs3 v = cat_base) vs"
    and zw: "zw = fold (verdict g us cat_hiprio (last_category zs4)) subgame
                    (zs4\<lparr>last_category := last_category zs4 + 1\<rparr>, True)"
    and miss: "\<not> (flags zs0 AND memoize \<noteq> 0 \<and> memo zs0 (precision, vs) \<noteq> None)"
    and ne: "vs \<noteq> []"
    and prec: "\<not> prec_at precision us \<le> 0"
    and a1: "attractor g vs us cat_base cat_hiprio
               (mark_hiprio g vs maxprio cat_hiprio
                  (zs0\<lparr>iters := iters zs0 + 1, last_category := last_category zs0 + 1\<rparr>))
             = Some zs3"
    and first: "(if prec_at subprecision opponent = 0 then Some (concede_sub g vs us zs3)
                 else zrun g subgame cat_base subprecision
                        (if mode = 3 then 3 else 0) (mprio - 1) zs3) = Some zs4"
  shows "zrun g vs cat_base precision mode mprio zs0 =
     (if snd zw then
        (if mode = 0 then zrun g vs cat_hiprio precision 1 mprio (fst zw)
         else Some (memo_record precision vs (fill_hiprio g vs maxprio us cat_hiprio (fst zw))))
      else
        Option.bind (attractor g vs opponent cat_hiprio (last_category zs4) (fst zw))
          (\<lambda>zs6. Option.bind
                    (zrun g (filter (\<lambda>v. vtype zs6 v = cat_hiprio) vs) cat_hiprio precision
                       (if mode = 1 then 2 else mode) mprio zs6)
                    (\<lambda>zs7. Some (memo_record precision vs zs7))))"
proof -
  have r1: "last_category (zs0\<lparr>iters := iters zs0 + 1\<rparr>) = last_category zs0" by simp
  show ?thesis
    apply (subst zrun.simps)
    using miss ne prec a1 first
    unfolding zw sub sp ch opp us mp
    apply (simp only: Let_def r1)
    apply (simp only: if_not_P if_False Option.bind_lunit)
    done
qed

lemma zrun_hit:
  assumes "flags zs0 AND memoize \<noteq> 0" and "memo zs0 (precision, vs) = Some m"
  shows "zrun g vs cat_base precision mode mprio zs0 = Some (memo_load vs m zs0)"
  using assms by (subst zrun.simps) simp

lemma zrun_empty:
  assumes "\<not> (flags zs0 AND memoize \<noteq> 0 \<and> memo zs0 (precision, []) \<noteq> None)"
  shows "zrun g [] cat_base precision mode mprio zs0 = Some (zs0\<lparr>iters := iters zs0 + 1\<rparr>)"
  apply (subst zrun.simps)
  using assms
  apply (simp only: Let_def if_not_P)
  apply (simp only: if_True if_False refl)
  done

lemma zrun_conceded:
  assumes miss: "\<not> (flags zs0 AND memoize \<noteq> 0 \<and> memo zs0 (precision, vs) \<noteq> None)"
    and ne: "vs \<noteq> []"
    and mp: "maxprio = (if mprio < 0 then fold (\<lambda>v m. max m (priority g v)) vs mprio else mprio)"
    and prec: "prec_at precision (low_bit maxprio) \<le> 0"
  shows "zrun g vs cat_base precision mode mprio zs0
           = Some (concede_entry g vs maxprio (zs0\<lparr>iters := iters zs0 + 1\<rparr>))"
  apply (subst zrun.simps)
  using miss ne prec
  unfolding mp
  apply (simp only: Let_def)
  apply (simp only: if_not_P if_False if_P)
  done

section \<open>Properties of \<^verbatim>\<open>solveSingleParity\<close>\<close>

lemma low_bit_cases: "low_bit x = 0 \<or> low_bit x = 1"
  unfolding low_bit_def by presburger

lemma parity_scan_known:
  assumes "p = 0 \<or> p = 1"
  shows "parity_scan s is p =
           (if \<forall>i\<in>set is. \<not> disabled s i \<longrightarrow> low_bit (priority s i) = p then Some p else None)"
  using assms by (induction "is") auto

lemma parity_scan_fresh_Some:
  "parity_scan s is (- 1) = Some q \<longleftrightarrow>
     (q = - 1 \<and> (\<forall>i\<in>set is. disabled s i)) \<or>
     ((q = 0 \<or> q = 1) \<and> (\<exists>i\<in>set is. \<not> disabled s i) \<and>
      (\<forall>i\<in>set is. \<not> disabled s i \<longrightarrow> low_bit (priority s i) = q))"
proof (induction "is")
  case Nil
  then show ?case by auto
next
  case (Cons i "is")
  show ?case
  proof (cases "disabled s i")
    case True
    then show ?thesis using Cons by simp
  next
    case False
    have b: "low_bit (priority s i) = 0 \<or> low_bit (priority s i) = 1"
      by (rule low_bit_cases)
    have "parity_scan s (i # is) (- 1) = parity_scan s is (low_bit (priority s i))"
      using False by simp
    also have "\<dots> = (if \<forall>j\<in>set is. \<not> disabled s j \<longrightarrow>
                          low_bit (priority s j) = low_bit (priority s i)
                      then Some (low_bit (priority s i)) else None)"
      using b by (rule parity_scan_known)
    finally have scan: "parity_scan s (i # is) (- 1) =
        (if \<forall>j\<in>set is. \<not> disabled s j \<longrightarrow> low_bit (priority s j) = low_bit (priority s i)
         then Some (low_bit (priority s i)) else None)" .
    show ?thesis
      unfolding scan using False b by (cases "q = low_bit (priority s i)") auto
  qed
qed


theorem solveSingleParity_false_iff:
  "solveSingleParity s = Some (Inr (False, s')) \<longleftrightarrow>
     ((\<forall>i<n_nodes s. disabled s i) \<or>
      (\<exists>i<n_nodes s. \<exists>j<n_nodes s. \<not> disabled s i \<and> \<not> disabled s j \<and>
          low_bit (priority s i) \<noteq> low_bit (priority s j))) \<and> s' = s"
proof (cases "parity_scan s [0..<n_nodes s] (- 1)")
  case None
  then have res: "solveSingleParity s = Some (Inr (False, s))"
    by (simp add: solveSingleParity_def)
  have n0: "\<not> (\<forall>i\<in>set [0..<n_nodes s]. \<not> disabled s i \<longrightarrow> low_bit (priority s i) = 0)"
   and n1: "\<not> (\<forall>i\<in>set [0..<n_nodes s]. \<not> disabled s i \<longrightarrow> low_bit (priority s i) = 1)"
   and ex: "\<exists>i\<in>set [0..<n_nodes s]. \<not> disabled s i"
    using None parity_scan_fresh_Some [of s "[0..<n_nodes s]" 0]
      parity_scan_fresh_Some [of s "[0..<n_nodes s]" 1]
      parity_scan_fresh_Some [of s "[0..<n_nodes s]" "- 1"]
    by auto
  from n0 obtain i where i: "i < n_nodes s" "\<not> disabled s i" "low_bit (priority s i) \<noteq> 0"
    by auto
  from n1 obtain j where j: "j < n_nodes s" "\<not> disabled s j" "low_bit (priority s j) \<noteq> 1"
    by auto
  have "low_bit (priority s i) \<noteq> low_bit (priority s j)"
    using i(3) j(3) low_bit_cases [of "priority s i"] low_bit_cases [of "priority s j"] by auto
  with i j have "\<exists>i<n_nodes s. \<exists>j<n_nodes s. \<not> disabled s i \<and> \<not> disabled s j \<and>
          low_bit (priority s i) \<noteq> low_bit (priority s j)"
    by blast
  with res show ?thesis by auto
next
  case (Some q)
  then consider
      (off) "q = - 1" "\<forall>i\<in>set [0..<n_nodes s]. disabled s i"
    | (same) "q = 0 \<or> q = 1" "\<exists>i\<in>set [0..<n_nodes s]. \<not> disabled s i"
        "\<forall>i\<in>set [0..<n_nodes s]. \<not> disabled s i \<longrightarrow> low_bit (priority s i) = q"
    using parity_scan_fresh_Some [of s "[0..<n_nodes s]" q] by auto
  then show ?thesis
  proof cases
    case off
    then have "solveSingleParity s = Some (Inr (False, s))"
      using Some by (simp add: solveSingleParity_def)
    with off show ?thesis by auto
  next
    case same
    have "solveSingleParity s \<noteq> Some (Inr (False, s'))"
      using Some same(1) by (auto simp: solveSingleParity_def split: sum.splits)
    moreover have "\<not> (\<forall>i<n_nodes s. disabled s i)"
      using same(2) by auto
    moreover have "\<not> (\<exists>i<n_nodes s. \<exists>j<n_nodes s. \<not> disabled s i \<and> \<not> disabled s j \<and>
          low_bit (priority s i) \<noteq> low_bit (priority s j))"
    proof -
      have "\<forall>i<n_nodes s. \<not> disabled s i \<longrightarrow> low_bit (priority s i) = q"
        using same(3) by simp
      then show ?thesis by metis
    qed
    ultimately show ?thesis by blast
  qed
qed


theorem solveSingleParity_false_iff_witness:
  "solveSingleParity game_two_parities = Some (Inr (False, game_two_parities))"
proof -
  have "\<not> disabled game_two_parities 0 \<and> \<not> disabled game_two_parities 1 \<and>
        low_bit (priority game_two_parities 0) \<noteq> low_bit (priority game_two_parities 1)"
    by (simp add: game_two_parities_def new_oink_def arr_def low_bit_def)
  moreover have "(0::nat) < n_nodes game_two_parities" "(1::nat) < n_nodes game_two_parities"
    by (simp_all add: game_two_parities_def new_oink_def)
  ultimately have "\<exists>i<n_nodes game_two_parities. \<exists>j<n_nodes game_two_parities.
      \<not> disabled game_two_parities i \<and> \<not> disabled game_two_parities j \<and>
      low_bit (priority game_two_parities i) \<noteq> low_bit (priority game_two_parities j)"
    by blast
  then show ?thesis
    using solveSingleParity_false_iff [of game_two_parities game_two_parities] by blast
qed

section \<open>Mode 3 and the precision\<close>

text \<open>
  C4. With \<open>mode = 3\<close> the result of \<^verbatim>\<open>zsolver::run\<close> is said not to depend on the
  precision. On the game of one vertex that player 0 owns and wins, a run in mode 3 with
  precision \<open>(0, 0)\<close> concedes the frame at its entry and leaves the vertex lost
  (strategy \<open>-1\<close>), a run with precision \<open>(1, 1)\<close> finds the move to itself, and
  \<open>(0, 0)\<close> is the precision that \<^verbatim>\<open>ExperimentalSolver::run\<close> computes for this game
  with the flags of \<^verbatim>\<open>ez\<close>.
\<close>

theorem zrun_mode3_depends_on_precision:
  "zstrategy_of (zrun game_loop0 [0] 0 (0, 0) 3 (- 1) (new_zsolver 5 fresh_globals)) 0 = Some (- 1) \<and>
   zstrategy_of (zrun game_loop0 [0] 0 (1, 1) 3 (- 1) (new_zsolver 5 fresh_globals)) 0 = Some 0 \<and>
   solver_flags (solver_id ''ez'') = Some 5 \<and>
   experimental_zrun 5 game_loop0 fresh_globals =
     zrun game_loop0 [0] 0 (0, 0) 3 (- 1) (new_zsolver 5 fresh_globals)"
proof -
  have "zstrategy_of (zrun game_loop0 [0] 0 (0, 0) 3 (- 1) (new_zsolver 5 fresh_globals)) 0
          = Some (- 1)"
    by (simp add: zstrategy_of_def game_loop0_def oink_eval zsolver_eval)
  moreover have "zstrategy_of (zrun game_loop0 [0] 0 (1, 1) 3 (- 1) (new_zsolver 5 fresh_globals)) 0
          = Some 0"
    by (simp add: zstrategy_of_def game_loop0_def oink_eval zsolver_eval)
  moreover have "solver_flags (solver_id ''ez'') = Some 5"
    by (simp add: solver_flags_def solver_id_def zielonka_def quick_priority_def)
  moreover have "experimental_zrun 5 game_loop0 fresh_globals =
      zrun game_loop0 [0] 0 (0, 0) 3 (- 1) (new_zsolver 5 fresh_globals)"
    by (simp add: experimental_zrun_def game_loop0_def new_oink_def fresh_globals_def
        zielonka_def quick_priority_def)
  ultimately show ?thesis by blast
qed

section \<open>The strategy stored for a winning vertex\<close>

text \<open>
  C2. A solved vertex that its owner wins is said to have a successor as its strategy, and
  never the value 999. On the game of one vertex that player 1 owns, with a loop of
  priority 0, a run without reductions and with the solver \<^verbatim>\<open>ez\<close> ends with the vertex
  solved, won by its owner 1, and 999 as its strategy, which is not a successor.
\<close>

theorem run_stores_999:
  "solution_of (run (plain_config (solver_id ''ez'')) plain_collaborators
                  (game_loop1, fresh_globals)) 0 = Some (True, 1, 999) \<and>
   owner game_loop1 0 = 1 \<and> out game_loop1 0 = [0]"
  by (simp add: solution_of_def solver_id_def game_loop1_def oink_eval zsolver_eval driver_eval)

section \<open>The search for winner-controlled cycles and the mask\<close>

text \<open>
  C9. The search of \<^verbatim>\<open>solveTrivialCycles\<close> is said to visit enabled vertices only. On
  the game \<open>game_wcwc\<close> the search from root 2 solves vertex 2, and the flush disables
  vertex 0, which no search has numbered yet. The first iteration of the search from
  root 1 then pushes vertex 0 on the stack, and when the loop over the roots has done
  roots 2 and 1, vertex 0 has a number and the mark \<open>-2\<close> of a rejected component.
\<close>

theorem search_visits_disabled_vertex:
  "tc_view (for_each_opt tc_root [2] (tc_init game_wcwc))
     = Some ([True, False, True], [0, 0, 1], [- 1, - 1, 2], []) \<and>
   tc_view (tc_first_iter_root1 (for_each_opt tc_root [2] (tc_init game_wcwc)))
     = Some ([True, False, True], [0, 2, 1], [- 1, - 1, 2], [0, 1]) \<and>
   tc_view (for_each_opt tc_root [2, 1] (tc_init game_wcwc))
     = Some ([True, True, True], [3, 2, 1], [- 2, 1, 2], [])"
proof -
  have r2: "tc_view (for_each_opt tc_root [2] (tc_init game_wcwc))
      = Some ([True, False, True], [0, 0, 1], [- 1, - 1, 2], [])"
    by (simp add: tc_view_def game_wcwc_def oink_eval reduction_eval)
  have it: "tc_view (tc_first_iter_root1 (for_each_opt tc_root [2] (tc_init game_wcwc)))
      = Some ([True, False, True], [0, 2, 1], [- 1, - 1, 2], [0, 1])"
    by (simp add: tc_view_def tc_first_iter_root1_def game_wcwc_def oink_eval reduction_eval)
  have r1: "tc_view (for_each_opt tc_root [2, 1] (tc_init game_wcwc))
      = Some ([True, True, True], [3, 2, 1], [- 2, 1, 2], [])"
    by (simp add: tc_view_def game_wcwc_def oink_eval reduction_eval)
  from r2 it r1 show ?thesis by blast
qed

section \<open>The lifetime of the table of recorded frames\<close>

text \<open>A frame of the solver leaves the flags alone and only extends the table.\<close>

lemma zrun_extends_memo:
  assumes "zrun g vs cat_base precision mode mprio zs = Some r"
  shows "flags r = flags zs \<and> memo_le (memo zs) (memo r)"
  using assms
proof (induct rule: zrun_frame_induct)
  case (hit g vs cat_base precision mode mprio zs0 m)
  then show ?case by (simp add: memo_load_def memo_le_refl)
next
  case (empty g cat_base precision mode mprio zs0)
  then show ?case by (simp add: memo_le_refl)
next
  case (conceded g vs cat_base precision mode mprio zs0 maxprio)
  then show ?case by (simp add: concede_entry_def memo_le_refl)
next
  case (restart g vs cat_base precision mode mprio zs0 maxprio us opponent cat_hiprio zs3
      subprecision subgame zs4 cat_opponent_wins zw r)
  have e3: "flags zs3 = flags zs0 \<and> memo zs3 = memo zs0"
    using attractor_keeps [OF restart(8)] by simp
  have e4: "flags zs4 = flags zs0 \<and> memo_le (memo zs0) (memo zs4)"
    using restart(11,12) e3
    by (cases "prec_at subprecision opponent = 0") (auto simp: concede_sub_def memo_le_refl)
  have "flags (fst zw) = flags zs0 \<and> memo_le (memo zs0) (memo (fst zw))"
    using e4 by (simp add: restart(14))
  with restart(17) show ?case by (auto intro: memo_le_trans)
next
  case (fill g vs cat_base precision mode mprio zs0 maxprio us opponent cat_hiprio zs3
      subprecision subgame zs4 cat_opponent_wins zw)
  have e3: "flags zs3 = flags zs0 \<and> memo zs3 = memo zs0"
    using attractor_keeps [OF fill(8)] by simp
  have e4: "flags zs4 = flags zs0 \<and> memo_le (memo zs0) (memo zs4)"
    using fill(11,12) e3
    by (cases "prec_at subprecision opponent = 0") (auto simp: concede_sub_def memo_le_refl)
  have "flags (fst zw) = flags zs0 \<and> memo_le (memo zs0) (memo (fst zw))"
    using e4 by (simp add: fill(14))
  then show ?case
    using memo_record_extends [where p = precision and vs = vs
        and zs = "fill_hiprio g vs maxprio us cat_hiprio (fst zw)"]
    by (auto intro: memo_le_trans)
next
  case (push g vs cat_base precision mode mprio zs0 maxprio us opponent cat_hiprio zs3
      subprecision subgame zs4 cat_opponent_wins zw zs6 zs7)
  have e3: "flags zs3 = flags zs0 \<and> memo zs3 = memo zs0"
    using attractor_keeps [OF push(8)] by simp
  have e4: "flags zs4 = flags zs0 \<and> memo_le (memo zs0) (memo zs4)"
    using push(11,12) e3
    by (cases "prec_at subprecision opponent = 0") (auto simp: concede_sub_def memo_le_refl)
  have "flags (fst zw) = flags zs0 \<and> memo_le (memo zs0) (memo (fst zw))"
    using e4 by (simp add: push(14))
  then have "flags zs6 = flags zs0 \<and> memo_le (memo zs0) (memo zs6)"
    using attractor_keeps [OF push(16)] by simp
  then have "flags zs7 = flags zs0 \<and> memo_le (memo zs0) (memo zs7)"
    using push(17) by (auto intro: memo_le_trans)
  then show ?case
    using memo_record_extends [where p = precision and vs = vs and zs = zs7] by (auto intro: memo_le_trans)
qed


lemma experimental_run_extends_memo:
  assumes "experimental_run fl (s, gl) = Some (Inr (s', gl'))"
  shows "memo_le (g_memo gl) (g_memo gl')"
proof -
  from assms obtain zs where
    z: "experimental_zrun fl s gl = Some zs" and
    c: "(case for_each (absorb zs) [0..<n_nodes s] s of
           Inl e \<Rightarrow> Inl e
         | Inr s' \<Rightarrow> Inr (s', \<lparr>g_last_category = last_category zs, g_memo = memo zs\<rparr>))
        = Inr (s', gl')"
    by (auto simp: experimental_run_def Option.bind_eq_Some_conv)
  have g: "gl' = \<lparr>g_last_category = last_category zs, g_memo = memo zs\<rparr>"
    using c by (cases "for_each (absorb zs) [0..<n_nodes s] s") auto
  from z have "memo_le (memo (new_zsolver fl gl)) (memo zs)"
    unfolding experimental_zrun_def Let_def by (rule zrun_extends_memo [THEN conjunct2])
  then show ?thesis by (simp add: g new_zsolver_def)
qed

lemma solveLoop_extends_memo:
  assumes "solveLoop cfg col sg = Some r"
  shows "\<forall>s' gl'. r = Inr (s', gl') \<longrightarrow> memo_le (g_memo (snd sg)) (g_memo gl')"
proof (rule solveLoop.raw_induct
    [where P = "\<lambda>cfg col sg r. \<forall>s' gl'. r = Inr (s', gl') \<longrightarrow> memo_le (g_memo (snd sg)) (g_memo gl')",
     OF _ assms])
  fix loop :: "config \<Rightarrow> collaborators \<Rightarrow> oink \<times> globals \<Rightarrow> (error + oink \<times> globals) option"
    and cfg :: config and col :: collaborators and sg :: "oink \<times> globals"
    and r :: "error + oink \<times> globals"
  assume IH: "\<And>cfg col sg r. loop cfg col sg = Some r \<Longrightarrow>
      \<forall>s' gl'. r = Inr (s', gl') \<longrightarrow> memo_le (g_memo (snd sg)) (g_memo gl')"
    and body: "(if gameSolved (fst sg) then Some (Inr sg)
      else
        (case solver_flags (solver cfg) of
           None \<Rightarrow> None
         | Some fl \<Rightarrow>
             Option.bind (experimental_run fl (set_mask cfg col (fst sg), snd sg)) (\<lambda>r.
               case r of
                 Inl e \<Rightarrow> Some (Inl e)
               | Inr sg1 \<Rightarrow>
                   Option.bind (flush (fst sg1)) (\<lambda>s2. loop cfg col (s2, snd sg1))))) = Some r"
  show "\<forall>s' gl'. r = Inr (s', gl') \<longrightarrow> memo_le (g_memo (snd sg)) (g_memo gl')"
  proof (intro allI impI)
    fix s' gl' assume r: "r = Inr (s', gl')"
    show "memo_le (g_memo (snd sg)) (g_memo gl')"
    proof (cases "gameSolved (fst sg)")
      case True
      with body r show ?thesis by (auto simp: memo_le_refl)
    next
      case False
      with body obtain fl where fl: "solver_flags (solver cfg) = Some fl"
        by (auto split: option.splits)
      with body False obtain r1 where
        e: "experimental_run fl (set_mask cfg col (fst sg), snd sg) = Some r1"
        and c: "(case r1 of Inl e \<Rightarrow> Some (Inl e)
                 | Inr sg1 \<Rightarrow> Option.bind (flush (fst sg1)) (\<lambda>s2. loop cfg col (s2, snd sg1)))
                = Some r"
        by (auto simp: Option.bind_eq_Some_conv)
      from c r obtain s1 gl1 where r1: "r1 = Inr (s1, gl1)"
        by (cases r1) auto
      with c obtain s2 where l: "loop cfg col (s2, gl1) = Some r"
        by (auto simp: Option.bind_eq_Some_conv)
      from e r1 have "memo_le (g_memo (snd sg)) (g_memo gl1)"
        using experimental_run_extends_memo [of fl "set_mask cfg col (fst sg)" "snd sg" s1 gl1]
        by simp
      moreover from IH [OF l] r have "memo_le (g_memo gl1) (g_memo gl')" by simp
      ultimately show ?thesis by (rule memo_le_trans)
    qed
  qed
qed

lemma run_solver_extends_memo:
  assumes "run_solver cfg col (s, gl) = Some (Inr (s', gl'))"
  shows "memo_le (g_memo gl) (g_memo gl')"
  using assms solveLoop_extends_memo [of cfg col "(s, gl)" "Inr (s', gl')"]
  by (auto simp: run_solver_def memo_le_refl split: if_splits)

lemma run_cycles_extends_memo:
  assumes "run_cycles cfg col (s, gl) = Some (Inr (s', gl'))"
  shows "memo_le (g_memo gl) (g_memo gl')"
proof (cases "removeWCWC cfg")
  case True
  with assms have "Option.bind (solveTrivialCycles s)
      (\<lambda>r. case r of Inl e \<Rightarrow> Some (Inl e) | Inr cs \<Rightarrow> run_solver cfg col (snd cs, gl))
      = Some (Inr (s', gl'))"
    by (simp add: run_cycles_def)
  then obtain cs where "run_solver cfg col (snd cs, gl) = Some (Inr (s', gl'))"
    by (auto elim: bind_case_sum_Inr)
  then show ?thesis by (rule run_solver_extends_memo)
next
  case False
  with assms have "run_solver cfg col (s, gl) = Some (Inr (s', gl'))"
    by (simp add: run_cycles_def)
  then show ?thesis by (rule run_solver_extends_memo)
qed

lemma run_loops_extends_memo:
  assumes "run_loops cfg col (s, gl) = Some (Inr (s', gl'))"
  shows "memo_le (g_memo gl) (g_memo gl')"
proof (cases "removeLoops cfg")
  case True
  with assms have "Option.bind (solveSelfloops s)
      (\<lambda>r. case r of Inl e \<Rightarrow> Some (Inl e) | Inr cs \<Rightarrow> run_cycles cfg col (snd cs, gl))
      = Some (Inr (s', gl'))"
    by (simp add: run_loops_def)
  then obtain cs where "run_cycles cfg col (snd cs, gl) = Some (Inr (s', gl'))"
    by (auto elim: bind_case_sum_Inr)
  then show ?thesis by (rule run_cycles_extends_memo)
next
  case False
  with assms have "run_cycles cfg col (s, gl) = Some (Inr (s', gl'))"
    by (simp add: run_loops_def)
  then show ?thesis by (rule run_cycles_extends_memo)
qed

lemma run_extends_memo:
  assumes "run cfg col (s, gl) = Some (Inr (s', gl'))"
  shows "memo_le (g_memo gl) (g_memo gl')"
proof (cases "solveSingle cfg")
  case single: True
  show ?thesis
  proof (cases "solveSingleParity (reprioritise cfg col s)")
    case None
    with assms single show ?thesis by (simp add: run_def Let_def)
  next
    case (Some r1)
    show ?thesis
    proof (cases r1)
      case (Inl e)
      with assms single Some show ?thesis by (simp add: run_def Let_def)
    next
      case (Inr bs)
      show ?thesis
      proof (cases "fst bs")
        case True
        with assms single Some Inr show ?thesis by (simp add: run_def Let_def memo_le_refl)
      next
        case False
        with assms single Some Inr have "run_loops cfg col (snd bs, gl) = Some (Inr (s', gl'))"
          by (simp add: run_def Let_def)
        then show ?thesis by (rule run_loops_extends_memo)
      qed
    qed
  qed
next
  case False
  with assms have "run_loops cfg col (reprioritise cfg col s, gl) = Some (Inr (s', gl'))"
    by (simp add: run_def Let_def)
  then show ?thesis by (rule run_loops_extends_memo)
qed

text \<open>
  C6, as the code has it. The table is a variable of the process and nothing clears it:
  when a run of the driver returns, every entry that was in the table when it started is
  still there, with what it held as the beginning of what it holds, and a solver
  constructed afterwards starts from the table the run left. So a later solve can be
  answered from an entry that an earlier one recorded.
\<close>

theorem memo_table_survives:
  assumes "returned (run cfg col (s, gl))"
  shows "memo_le (g_memo gl) (g_memo (globals_after (run cfg col (s, gl)))) \<and>
         memo (new_zsolver fl (globals_after (run cfg col (s, gl))))
           = g_memo (globals_after (run cfg col (s, gl)))"
proof -
  from assms obtain s' gl' where r: "run cfg col (s, gl) = Some (Inr (s', gl'))"
    by (auto simp: returned_def split: option.splits sum.splits)
  from run_extends_memo [OF r] show ?thesis
    by (simp add: r globals_after_def new_zsolver_def)
qed

lemma even_cycle_memo:
  "g_memo globals_after_even_cycle ((1, 1), [0, 1]) = Some [1, - 1]"
  by code_simp

theorem memo_table_survives_witness:
  "returned (run (plain_config 5) plain_collaborators (game_odd_cycle, globals_after_even_cycle)) \<and>
   (\<exists>m'. g_memo (globals_after (run (plain_config 5) plain_collaborators
                                   (game_odd_cycle, globals_after_even_cycle))) ((1, 1), [0, 1])
          = Some ([1, - 1] @ m'))"
proof -
  have ret: "returned (run (plain_config 5) plain_collaborators
                         (game_odd_cycle, globals_after_even_cycle))"
    by code_simp
  from memo_table_survives [OF ret, of 6] even_cycle_memo
  have "\<exists>m'. g_memo (globals_after (run (plain_config 5) plain_collaborators
                                   (game_odd_cycle, globals_after_even_cycle))) ((1, 1), [0, 1])
          = Some ([1, - 1] @ m')"
    unfolding memo_le_def by blast
  with ret show ?thesis by blast
qed

text \<open>
  The claim as it is stated fails on two solves in one process with the solver \<^verbatim>\<open>epqm\<close>.
  After \<open>game_even_cycle\<close> the table holds the strategies of its two vertices under the
  key of precision \<open>(1, 1)\<close> and vertices \<open>[0, 1]\<close>. The solve of \<open>game_odd_cycle\<close> that
  follows is answered from this entry: it gives both vertices to player 0, where the same
  solve in a fresh process gives them to player 1.
\<close>

theorem memo_hit_from_earlier_solve:
  "g_memo globals_after_even_cycle ((1, 1), [0, 1]) = Some [1, - 1] \<and>
   solution_of (run (plain_config 5) plain_collaborators
                  (game_odd_cycle, globals_after_even_cycle)) 0 = Some (True, 0, 1) \<and>
   solution_of (run (plain_config 5) plain_collaborators
                  (game_odd_cycle, fresh_globals)) 0 = Some (True, 1, - 1)"
proof -
  have "solution_of (run (plain_config 5) plain_collaborators
                  (game_odd_cycle, globals_after_even_cycle)) 0 = Some (True, 0, 1)"
    by code_simp
  moreover have "solution_of (run (plain_config 5) plain_collaborators
                  (game_odd_cycle, fresh_globals)) 0 = Some (True, 1, - 1)"
    by code_simp
  ultimately show ?thesis using even_cycle_memo by blast
qed


section \<open>The solver and the mask\<close>

lemma same_game_sym: "same_game g g' \<Longrightarrow> same_game g' g"
  by (simp add: same_game_def)

lemma same_game_mask: "same_game g (g\<lparr>disabled := d\<rparr>)"
  by (simp add: same_game_def)

lemma same_game_helpers:
  assumes "same_game g g'"
  shows "attr_init g' = attr_init g" "attr_edge g' = attr_edge g"
    "mark_hiprio g' = mark_hiprio g" "concede_entry g' = concede_entry g"
    "concede_sub g' = concede_sub g" "verdict g' = verdict g" "fill_hiprio g' = fill_hiprio g"
    "priority g' = priority g" "inn g' = inn g" "owner g' = owner g" "n_nodes g' = n_nodes g"
proof -
  from assms have e: "n_nodes g' = n_nodes g" "owner g' = owner g" "priority g' = priority g"
    "out g' = out g" "inn g' = inn g"
    by (simp_all add: same_game_def)
  show "attr_init g' = attr_init g"
    by (intro ext) (simp add: attr_init_def e cong: if_cong)
  show "attr_edge g' = attr_edge g"
    by (intro ext) (simp add: attr_edge_def e cong: if_cong)
  show "mark_hiprio g' = mark_hiprio g"
    by (intro ext) (simp add: mark_hiprio_def e cong: if_cong)
  show "concede_entry g' = concede_entry g"
    by (intro ext) (simp add: concede_entry_def e cong: if_cong)
  show "concede_sub g' = concede_sub g"
    by (intro ext) (simp add: concede_sub_def e cong: if_cong)
  show "verdict g' = verdict g"
    by (intro ext) (simp add: verdict_def e cong: if_cong)
  show "fill_hiprio g' = fill_hiprio g"
    by (intro ext) (simp add: fill_hiprio_def e cong: if_cong)
  show "priority g' = priority g" "inn g' = inn g" "owner g' = owner g" "n_nodes g' = n_nodes g"
    by (simp_all add: e)
qed

lemma attr_loop_same_game_Some:
  assumes "attr_loop g whose cat_yes i qz = Some r"
  shows "\<forall>g'. same_game g g' \<longrightarrow> attr_loop g' whose cat_yes i qz = Some r"
proof (rule attr_loop.raw_induct
    [where P = "\<lambda>g whose cat_yes i qz r.
                  \<forall>g'. same_game g g' \<longrightarrow> attr_loop g' whose cat_yes i qz = Some r",
     OF _ assms])
  fix loop :: "oink \<Rightarrow> int \<Rightarrow> int \<Rightarrow> nat \<Rightarrow> nat list \<times> zsolver \<Rightarrow> (nat list \<times> zsolver) option"
    and g :: oink and whose cat_yes :: int and i :: nat and qz r :: "nat list \<times> zsolver"
  assume IH: "\<And>g whose cat_yes i qz r. loop g whose cat_yes i qz = Some r \<Longrightarrow>
                \<forall>g'. same_game g g' \<longrightarrow> attr_loop g' whose cat_yes i qz = Some r"
    and body: "(if i < length (fst qz)
                then loop g whose cat_yes (i + 1)
                       (fold (attr_edge g whose cat_yes (fst qz ! i)) (inn g (fst qz ! i)) qz)
                else Some qz) = Some r"
  show "\<forall>g'. same_game g g' \<longrightarrow> attr_loop g' whose cat_yes i qz = Some r"
  proof (intro allI impI)
    fix g' assume sg: "same_game g g'"
    show "attr_loop g' whose cat_yes i qz = Some r"
    proof (cases "i < length (fst qz)")
      case True
      with body have "loop g whose cat_yes (i + 1)
          (fold (attr_edge g whose cat_yes (fst qz ! i)) (inn g (fst qz ! i)) qz) = Some r"
        by simp
      from IH [OF this] sg have "attr_loop g' whose cat_yes (i + 1)
          (fold (attr_edge g whose cat_yes (fst qz ! i)) (inn g (fst qz ! i)) qz) = Some r"
        by blast
      then show ?thesis
        using True by (subst attr_loop.simps) (simp add: same_game_helpers [OF sg])
    next
      case False
      with body show ?thesis by (subst attr_loop.simps) simp
    qed
  qed
qed

lemma option_eq_by_Some:
  assumes "\<And>r. a = Some r \<Longrightarrow> b = Some r" and "\<And>r. b = Some r \<Longrightarrow> a = Some r"
  shows "a = b"
  using assms by (cases a; cases b) auto

lemma attractor_same_game:
  assumes "same_game g g'"
  shows "attractor g' vs whose cat_no cat_yes zs = attractor g vs whose cat_no cat_yes zs"
proof -
  have "attr_loop g' whose cat_yes i qz = attr_loop g whose cat_yes i qz" for i qz
  proof (rule option_eq_by_Some)
    fix r assume "attr_loop g' whose cat_yes i qz = Some r"
    from attr_loop_same_game_Some [OF this] same_game_sym [OF assms]
    show "attr_loop g whose cat_yes i qz = Some r" by blast
  next
    fix r assume "attr_loop g whose cat_yes i qz = Some r"
    from attr_loop_same_game_Some [OF this] assms
    show "attr_loop g' whose cat_yes i qz = Some r" by blast
  qed
  then show ?thesis
    by (simp add: attractor_def same_game_helpers [OF assms])
qed

text \<open>A frame gives the same result on every state that holds the same game graph.\<close>

lemma zrun_same_game_Some:
  assumes "zrun g vs cat_base precision mode mprio zs = Some r"
  shows "\<forall>g'. same_game g g' \<longrightarrow> zrun g' vs cat_base precision mode mprio zs = Some r"
  using assms
proof (induct rule: zrun_frame_induct)
  case (hit g vs cat_base precision mode mprio zs0 m)
  from zrun_hit [OF hit] show ?case by blast
next
  case (empty g cat_base precision mode mprio zs0)
  from zrun_empty [OF empty] show ?case by blast
next
  case (conceded g vs cat_base precision mode mprio zs0 maxprio)
  show ?case
  proof (intro allI impI)
    fix g' assume sg: "same_game g g'"
    have mp: "maxprio = (if mprio < 0 then fold (\<lambda>v m. max m (priority g' v)) vs mprio else mprio)"
      using conceded(3) by (simp add: same_game_helpers [OF sg])
    from zrun_conceded [OF conceded(1,2) mp conceded(4)]
    show "zrun g' vs cat_base precision mode mprio zs0
        = Some (concede_entry g vs maxprio (zs0\<lparr>iters := iters zs0 + 1\<rparr>))"
      by (simp add: same_game_helpers [OF sg])
  qed
next
  case (restart g vs cat_base precision mode mprio zs0 maxprio us opponent cat_hiprio zs3
      subprecision subgame zs4 cat_opponent_wins zw r)
  show ?case
  proof (intro allI impI)
    fix g' assume sg: "same_game g g'"
    note h = same_game_helpers [OF sg] attractor_same_game [OF sg]
    have mp: "maxprio = (if mprio < 0 then fold (\<lambda>v m. max m (priority g' v)) vs mprio else mprio)"
      using restart(3) by (simp add: h)
    have zw: "zw = fold (verdict g' us cat_hiprio (last_category zs4)) subgame
                     (zs4\<lparr>last_category := last_category zs4 + 1\<rparr>, True)"
      using restart(13,14) by (simp add: h)
    have a1: "attractor g' vs us cat_base cat_hiprio
               (mark_hiprio g' vs maxprio cat_hiprio
                  (zs0\<lparr>iters := iters zs0 + 1, last_category := last_category zs0 + 1\<rparr>))
             = Some zs3"
      using restart(8) by (simp add: h)
    have first: "(if prec_at subprecision opponent = 0 then Some (concede_sub g' vs us zs3)
        else zrun g' subgame cat_base subprecision (if mode = 3 then 3 else 0) (mprio - 1) zs3)
        = Some zs4"
      using restart(11,12) sg by (cases "prec_at subprecision opponent = 0") (auto simp: h)
    have last: "zrun g' vs cat_hiprio precision 1 mprio (fst zw) = Some r"
      using restart(17) sg by blast
    show "zrun g' vs cat_base precision mode mprio zs0 = Some r"
      unfolding zrun_frame_eq [OF mp restart(4,5,7,9,10) zw restart(1,2,6) a1 first]
      using restart(15,16) last by simp
  qed
next
  case (fill g vs cat_base precision mode mprio zs0 maxprio us opponent cat_hiprio zs3
      subprecision subgame zs4 cat_opponent_wins zw)
  show ?case
  proof (intro allI impI)
    fix g' assume sg: "same_game g g'"
    note h = same_game_helpers [OF sg] attractor_same_game [OF sg]
    have mp: "maxprio = (if mprio < 0 then fold (\<lambda>v m. max m (priority g' v)) vs mprio else mprio)"
      using fill(3) by (simp add: h)
    have zw: "zw = fold (verdict g' us cat_hiprio (last_category zs4)) subgame
                     (zs4\<lparr>last_category := last_category zs4 + 1\<rparr>, True)"
      using fill(13,14) by (simp add: h)
    have a1: "attractor g' vs us cat_base cat_hiprio
               (mark_hiprio g' vs maxprio cat_hiprio
                  (zs0\<lparr>iters := iters zs0 + 1, last_category := last_category zs0 + 1\<rparr>))
             = Some zs3"
      using fill(8) by (simp add: h)
    have first: "(if prec_at subprecision opponent = 0 then Some (concede_sub g' vs us zs3)
        else zrun g' subgame cat_base subprecision (if mode = 3 then 3 else 0) (mprio - 1) zs3)
        = Some zs4"
      using fill(11,12) sg by (cases "prec_at subprecision opponent = 0") (auto simp: h)
    show "zrun g' vs cat_base precision mode mprio zs0
        = Some (memo_record precision vs (fill_hiprio g vs maxprio us cat_hiprio (fst zw)))"
      unfolding zrun_frame_eq [OF mp fill(4,5,7,9,10) zw fill(1,2,6) a1 first]
      using fill(15,16) by (simp add: h)
  qed
next
  case (push g vs cat_base precision mode mprio zs0 maxprio us opponent cat_hiprio zs3
      subprecision subgame zs4 cat_opponent_wins zw zs6 zs7)
  show ?case
  proof (intro allI impI)
    fix g' assume sg: "same_game g g'"
    note h = same_game_helpers [OF sg] attractor_same_game [OF sg]
    have mp: "maxprio = (if mprio < 0 then fold (\<lambda>v m. max m (priority g' v)) vs mprio else mprio)"
      using push(3) by (simp add: h)
    have zw: "zw = fold (verdict g' us cat_hiprio (last_category zs4)) subgame
                     (zs4\<lparr>last_category := last_category zs4 + 1\<rparr>, True)"
      using push(13,14) by (simp add: h)
    have a1: "attractor g' vs us cat_base cat_hiprio
               (mark_hiprio g' vs maxprio cat_hiprio
                  (zs0\<lparr>iters := iters zs0 + 1, last_category := last_category zs0 + 1\<rparr>))
             = Some zs3"
      using push(8) by (simp add: h)
    have first: "(if prec_at subprecision opponent = 0 then Some (concede_sub g' vs us zs3)
        else zrun g' subgame cat_base subprecision (if mode = 3 then 3 else 0) (mprio - 1) zs3)
        = Some zs4"
      using push(11,12) sg by (cases "prec_at subprecision opponent = 0") (auto simp: h)
    have a2: "attractor g' vs opponent cat_hiprio (last_category zs4) (fst zw) = Some zs6"
      using push(16) by (simp add: h push(13))
    have last: "zrun g' (filter (\<lambda>v. vtype zs6 v = cat_hiprio) vs) cat_hiprio precision
        (if mode = 1 then 2 else mode) mprio zs6 = Some zs7"
      using push(17) sg by blast
    show "zrun g' vs cat_base precision mode mprio zs0 = Some (memo_record precision vs zs7)"
      unfolding zrun_frame_eq [OF mp push(4,5,7,9,10) zw push(1,2,6) a1 first]
      using push(15) a2 last by simp
  qed
qed

lemma zrun_same_game:
  assumes "same_game g g'"
  shows "zrun g' vs cat_base precision mode mprio zs = zrun g vs cat_base precision mode mprio zs"
proof (rule option_eq_by_Some)
  fix r assume "zrun g' vs cat_base precision mode mprio zs = Some r"
  from zrun_same_game_Some [OF this] same_game_sym [OF assms]
  show "zrun g vs cat_base precision mode mprio zs = Some r" by blast
next
  fix r assume "zrun g vs cat_base precision mode mprio zs = Some r"
  from zrun_same_game_Some [OF this] assms
  show "zrun g' vs cat_base precision mode mprio zs = Some r" by blast
qed

lemma experimental_zrun_same_game:
  assumes "same_game g g'"
  shows "experimental_zrun fl g' gl = experimental_zrun fl g gl"
  by (simp add: experimental_zrun_def zrun_same_game [OF assms] same_game_helpers [OF assms])

text \<open>
  So the solver does not read the mask: whatever \<^verbatim>\<open>disabled\<close> holds, \<^verbatim>\<open>zs.run\<close> computes the
  same over the whole vertex list, and returns or not alike.
\<close>

lemma experimental_zrun_ignores_mask:
  "experimental_zrun fl (s\<lparr>disabled := d\<rparr>) gl = experimental_zrun fl s gl"
  by (rule experimental_zrun_same_game) (rule same_game_mask)



text \<open>
  Claim C5 says that in an iteration of the driver the solver works on the masked subgame
  only: it reads and writes strategies only where \<^verbatim>\<open>disabled\<close> is false, and it never
  passes a masked vertex to \<^verbatim>\<open>Oink::solve\<close>. \<^verbatim>\<open>Oink::solve\<close> itself refuses a masked vertex
  with a logic error. The experimental solver breaks both on \<open>game_tail\<close> with the bottom
  SCC selected, under \<^verbatim>\<open>ez\<close>: the mask hides vertex 1, and still the solver writes a draft
  strategy for it (\<open>-1\<close> where the draft started at 0), and its last loop, which tests
  \<^verbatim>\<open>solved\<close> and not \<^verbatim>\<open>disabled\<close>, passes vertex 1 to \<^verbatim>\<open>Oink::solve\<close>, which ends the run
  with the logic error.
\<close>

theorem solver_reaches_masked_vertex:
  "disabled (set_mask bottom_config bottom_collaborators game_tail) 1 \<and>
   solved (set_mask bottom_config bottom_collaborators game_tail) 1 = False \<and>
   zstrategy (new_zsolver 5 fresh_globals) 1 = 0 \<and>
   zstrategy_of (experimental_zrun 5 (set_mask bottom_config bottom_collaborators game_tail)
                   fresh_globals) 1 = Some (- 1) \<and>
   error_of (run bottom_config bottom_collaborators (game_tail, fresh_globals))
     = Some LogicError"
  by code_simp

section \<open>The attractor primitive\<close>

lemma count_filter_insert:
  assumes "v \<notin> S"
  shows "length (filter (\<lambda>x. x = v \<or> x \<in> S) xs) = count_list xs v + length (filter (\<lambda>x. x \<in> S) xs)"
  using assms by (induction xs) auto

lemma count_concat_inn:
  assumes "edges_mirrored g vs" and "distinct P" and "set P \<subseteq> set vs" and "w \<in> set vs"
  shows "count_list (concat (map (inn g) P)) w = length (filter (\<lambda>x. x \<in> set P) (out g w))"
  using assms(2,3)
proof (induction P)
  case Nil
  then show ?case by simp
next
  case (Cons v P)
  then have "count_list (inn g v) w = count_list (out g w) v"
    using assms(1,4) by (simp add: edges_mirrored_def)
  moreover have "v \<notin> set P" using Cons.prems by simp
  ultimately show ?case
    using Cons by (simp add: count_filter_insert)
qed

lemma filter_length_mono:
  assumes "S \<subseteq> V"
  shows "length (filter (\<lambda>x. x \<in> S) xs) \<le> length (filter (\<lambda>x. x \<in> V) xs)"
  using assms by (induction xs) auto

lemma filter_length_subset_eq:
  assumes "length (filter (\<lambda>x. x \<in> V) xs) \<le> length (filter (\<lambda>x. x \<in> S) xs)" and "S \<subseteq> V"
    and "x \<in> set xs" and "x \<in> V"
  shows "x \<in> S"
  using assms(1,3)
proof (induction xs)
  case Nil
  then show ?case by simp
next
  case (Cons a xs)
  note le = filter_length_mono [OF assms(2), of xs]
  show ?case
  proof (cases "a \<in> S")
    case True
    then have "a \<in> V" using assms(2) by blast
    with True Cons show ?thesis by (cases "x = a") simp_all
  next
    case False
    show ?thesis
    proof (cases "a \<in> V")
      case True
      with False Cons.prems(1) le show ?thesis by simp
    next
      case False
      with \<open>a \<notin> S\<close> Cons assms(4) show ?thesis by (cases "x = a") simp_all
    qed
  qed
qed

lemma degs_update_cong:
  "(\<And>w. f w = f' w) \<Longrightarrow> z\<lparr>degs := f\<rparr> = z\<lparr>degs := f'\<rparr>"
  by (simp add: fun_eq_iff)

lemma attr_init_fold:
  "fold (attr_init g p cn cy) xs (q, z) =
     (q @ filter (\<lambda>v. vtype z v = cy) xs,
      z\<lparr>degs := (\<lambda>w. if w \<in> set xs \<and> vtype z w \<noteq> cy
                     then (if owner g w = p then 1
                           else int (length (filter (\<lambda>x. vtype z x = cn \<or> vtype z x = cy) (out g w))))
                     else degs z w)\<rparr>)"
proof (induction xs arbitrary: q z)
  case Nil
  show ?case by simp
next
  case (Cons v xs)
  define k where "k = int (length (filter (\<lambda>x. vtype z x = cn \<or> vtype z x = cy) (out g v)))"
  consider (yes) "vtype z v = cy" | (own) "vtype z v \<noteq> cy" "owner g v = p"
    | (opp) "vtype z v \<noteq> cy" "owner g v \<noteq> p"
    by blast
  then show ?case
  proof cases
    case yes
    then have "attr_init g p cn cy v (q, z) = (q @ [v], z)"
      by (simp add: attr_init_def)
    then have "fold (attr_init g p cn cy) (v # xs) (q, z) = fold (attr_init g p cn cy) xs (q @ [v], z)"
      by simp
    with yes show ?thesis
      by (simp only: Cons.IH) (auto intro!: degs_update_cong)
  next
    case own
    then have "attr_init g p cn cy v (q, z) = (q, z\<lparr>degs := (degs z)(v := 1)\<rparr>)"
      by (simp add: attr_init_def)
    then have "fold (attr_init g p cn cy) (v # xs) (q, z) =
        fold (attr_init g p cn cy) xs (q, z\<lparr>degs := (degs z)(v := 1)\<rparr>)"
      by simp
    with own show ?thesis
      by (simp only: Cons.IH) (auto intro!: degs_update_cong)
  next
    case opp
    then have "attr_init g p cn cy v (q, z) = (q, z\<lparr>degs := (degs z)(v := k)\<rparr>)"
      by (simp add: attr_init_def k_def)
    then have "fold (attr_init g p cn cy) (v # xs) (q, z) =
        fold (attr_init g p cn cy) xs (q, z\<lparr>degs := (degs z)(v := k)\<rparr>)"
      by simp
    with opp show ?thesis
      by (simp only: Cons.IH) (auto intro!: degs_update_cong simp add: k_def)
  qed
qed

lemma attr_init_result:
  assumes "attr_pre g vs cn cy zs"
  shows "fold (attr_init g p cn cy) vs ([], zs) =
           (filter (\<lambda>v. vtype zs v = cy) vs, zs\<lparr>degs := attr_degs g vs p cy zs\<rparr>)"
proof -
  have "(\<lambda>x. vtype zs x = cn \<or> vtype zs x = cy) = (\<lambda>x. x \<in> set vs)"
    using assms by (simp add: attr_pre_def fun_eq_iff)
  then show ?thesis
    by (simp add: attr_init_fold) (auto intro!: degs_update_cong simp add: attr_degs_def)
qed

lemma attr_degs_pos:
  assumes "attr_pre g vs cn cy zs" and "1 \<le> attr_degs g vs p cy zs w"
  shows "w \<in> set vs" and "w \<notin> attr_targets vs cy zs"
    and "owner g w = p \<Longrightarrow> attr_degs g vs p cy zs w = 1"
    and "owner g w \<noteq> p \<Longrightarrow>
           attr_degs g vs p cy zs w = int (length (filter (\<lambda>x. x \<in> set vs) (out g w)))"
proof -
  have neg: "degs zs w < 0" using assms(1) by (simp add: attr_pre_def)
  show "w \<in> set vs" using assms(2) neg by (auto simp add: attr_degs_def split: if_splits)
  show "w \<notin> attr_targets vs cy zs"
    using assms(2) neg by (auto simp add: attr_degs_def attr_targets_def split: if_splits)
  show "owner g w = p \<Longrightarrow> attr_degs g vs p cy zs w = 1"
    using assms(2) neg by (auto simp add: attr_degs_def split: if_splits)
  show "owner g w \<noteq> p \<Longrightarrow>
           attr_degs g vs p cy zs w = int (length (filter (\<lambda>x. x \<in> set vs) (out g w)))"
    using assms(2) neg by (auto simp add: attr_degs_def split: if_splits)
qed

lemma attr_invI:
  assumes "distinct Q"
    and "set Q = attr_targets vs cy zs \<union> {w. 1 \<le> d0 w \<and> d0 w \<le> int (count_list E w)}"
    and "\<And>w. degs z w = d0 w - int (count_list E w)"
    and "\<And>w. vtype z w = (if w \<in> set Q then cy else vtype zs w)"
    and "\<And>w. w \<notin> set Q \<or> w \<in> attr_targets vs cy zs \<Longrightarrow> zstrategy z w = zstrategy zs w"
    and "\<And>k. k < length Q \<Longrightarrow> Q ! k \<notin> attr_targets vs cy zs \<Longrightarrow> owner g (Q ! k) = p \<Longrightarrow>
           \<exists>j<k. zstrategy z (Q ! k) = int (Q ! j) \<and> Q ! j \<in> set (out g (Q ! k))"
    and "\<And>k. k < length Q \<Longrightarrow> Q ! k \<notin> attr_targets vs cy zs \<Longrightarrow> owner g (Q ! k) \<noteq> p \<Longrightarrow>
           zstrategy z (Q ! k) = - 1"
    and "set Q \<subseteq> attr_set g (set vs) p (attr_targets vs cy zs)"
  shows "attr_inv g vs p cy zs d0 E (Q, z)"
  unfolding attr_inv_def fst_conv snd_conv
  using assms by (intro conjI allI impI) simp_all

lemma attr_invD:
  assumes "attr_inv g vs p cy zs d0 E (Q, z)"
  shows "distinct Q"
    and "set Q = attr_targets vs cy zs \<union> {w. 1 \<le> d0 w \<and> d0 w \<le> int (count_list E w)}"
    and "\<And>w. degs z w = d0 w - int (count_list E w)"
    and "\<And>w. vtype z w = (if w \<in> set Q then cy else vtype zs w)"
    and "\<And>w. w \<notin> set Q \<or> w \<in> attr_targets vs cy zs \<Longrightarrow> zstrategy z w = zstrategy zs w"
    and "\<And>k. k < length Q \<Longrightarrow> Q ! k \<notin> attr_targets vs cy zs \<Longrightarrow> owner g (Q ! k) = p \<Longrightarrow>
           \<exists>j<k. zstrategy z (Q ! k) = int (Q ! j) \<and> Q ! j \<in> set (out g (Q ! k))"
    and "\<And>k. k < length Q \<Longrightarrow> Q ! k \<notin> attr_targets vs cy zs \<Longrightarrow> owner g (Q ! k) \<noteq> p \<Longrightarrow>
           zstrategy z (Q ! k) = - 1"
    and "set Q \<subseteq> attr_set g (set vs) p (attr_targets vs cy zs)"
proof -
  note a = assms [unfolded attr_inv_def fst_conv snd_conv]
  show "distinct Q" using a by blast
  show "set Q = attr_targets vs cy zs \<union> {w. 1 \<le> d0 w \<and> d0 w \<le> int (count_list E w)}"
    using a by blast
  show "\<And>w. degs z w = d0 w - int (count_list E w)" using a by blast
  show "\<And>w. vtype z w = (if w \<in> set Q then cy else vtype zs w)" using a by blast
  show "\<And>w. w \<notin> set Q \<or> w \<in> attr_targets vs cy zs \<Longrightarrow> zstrategy z w = zstrategy zs w"
    using a by blast
  have s: "\<And>k. k < length Q \<Longrightarrow> Q ! k \<notin> attr_targets vs cy zs \<Longrightarrow>
          (if owner g (Q ! k) = p
           then \<exists>j<k. zstrategy z (Q ! k) = int (Q ! j) \<and> Q ! j \<in> set (out g (Q ! k))
           else zstrategy z (Q ! k) = - 1)"
    using a by blast
  show "\<And>k. k < length Q \<Longrightarrow> Q ! k \<notin> attr_targets vs cy zs \<Longrightarrow> owner g (Q ! k) = p \<Longrightarrow>
           \<exists>j<k. zstrategy z (Q ! k) = int (Q ! j) \<and> Q ! j \<in> set (out g (Q ! k))"
    using s by presburger
  show "\<And>k. k < length Q \<Longrightarrow> Q ! k \<notin> attr_targets vs cy zs \<Longrightarrow> owner g (Q ! k) \<noteq> p \<Longrightarrow>
           zstrategy z (Q ! k) = - 1"
    using s by presburger
  show "set Q \<subseteq> attr_set g (set vs) p (attr_targets vs cy zs)" using a by blast
qed

lemma queue_set_step:
  assumes "set Q = T \<union> {x. 1 \<le> d0 x \<and> d0 x \<le> int (count_list E x)}"
  shows "d0 w = int (count_list E w) + 1 \<Longrightarrow>
           set (Q @ [w]) = T \<union> {x. 1 \<le> d0 x \<and> d0 x \<le> int (count_list (E @ [w]) x)}"
    and "d0 w \<noteq> int (count_list E w) + 1 \<Longrightarrow>
           set Q = T \<union> {x. 1 \<le> d0 x \<and> d0 x \<le> int (count_list (E @ [w]) x)}"
proof -
  have m: "x \<in> set Q \<longleftrightarrow> x \<in> T \<or> (1 \<le> d0 x \<and> d0 x \<le> int (count_list E x))" for x
    by (simp only: assms Un_iff mem_Collect_eq)
  have c: "int (count_list (E @ [w]) x) = (if x = w then int (count_list E w) + 1 else int (count_list E x))"
    for x by simp
  show "set (Q @ [w]) = T \<union> {x. 1 \<le> d0 x \<and> d0 x \<le> int (count_list (E @ [w]) x)}"
    if a: "d0 w = int (count_list E w) + 1"
  proof (rule set_eqI)
    fix x
    show "x \<in> set (Q @ [w]) \<longleftrightarrow> x \<in> T \<union> {x. 1 \<le> d0 x \<and> d0 x \<le> int (count_list (E @ [w]) x)}"
    proof (cases "x = w")
      case True
      then show ?thesis using a by (simp only: c Un_iff mem_Collect_eq) simp
    next
      case False
      then show ?thesis using m [of x] by (simp only: c Un_iff mem_Collect_eq) simp
    qed
  qed
  show "set Q = T \<union> {x. 1 \<le> d0 x \<and> d0 x \<le> int (count_list (E @ [w]) x)}"
    if a: "d0 w \<noteq> int (count_list E w) + 1"
  proof (rule set_eqI)
    fix x
    show "x \<in> set Q \<longleftrightarrow> x \<in> T \<union> {x. 1 \<le> d0 x \<and> d0 x \<le> int (count_list (E @ [w]) x)}"
    proof (cases "x = w")
      case True
      then show ?thesis using a m [of w] by (simp only: c Un_iff mem_Collect_eq) auto
    next
      case False
      then show ?thesis using m [of x] by (simp only: c Un_iff mem_Collect_eq) simp
    qed
  qed
qed

lemma attr_edge_inv:
  assumes inv: "attr_inv g vs p cy zs d0 E (Q, z)"
    and mir: "edges_mirrored g vs"
    and d0in: "\<And>x. 1 \<le> d0 x \<Longrightarrow> x \<in> set vs \<and> x \<notin> attr_targets vs cy zs"
    and d0own: "\<And>x. 1 \<le> d0 x \<Longrightarrow> owner g x = p \<Longrightarrow> d0 x = 1"
    and d0opp: "\<And>x. 1 \<le> d0 x \<Longrightarrow> owner g x \<noteq> p \<Longrightarrow>
                  d0 x = int (length (filter (\<lambda>y. y \<in> set vs) (out g x)))"
    and vQ: "v \<in> set Q" and vV: "v \<in> set vs"
    and win: "w \<in> set (inn g v)"
    and S: "S \<subseteq> attr_set g (set vs) p (attr_targets vs cy zs)" "S \<subseteq> set vs"
    and bound: "w \<in> set vs \<Longrightarrow> count_list E w + 1 \<le> length (filter (\<lambda>y. y \<in> S) (out g w))"
  shows "attr_inv g vs p cy zs d0 (E @ [w]) (attr_edge g p cy v w (Q, z))"
proof (cases "d0 w = int (count_list E w) + 1")
  case True
  note I = attr_invD [OF inv]
  have w1: "1 \<le> d0 w" using True by simp
  have wV: "w \<in> set vs" and wT: "w \<notin> attr_targets vs cy zs" using d0in [OF w1] by simp_all
  have wQ: "w \<notin> set Q" using I(2) wT True by simp
  have step: "attr_edge g p cy v w (Q, z) =
      (Q @ [w], z\<lparr>degs := (degs z)(w := 0), vtype := (vtype z)(w := cy),
                   zstrategy := (zstrategy z)(w := (if owner g w = p then int v else - 1))\<rparr>)"
    using True by (simp add: attr_edge_def I(3))
  have "count_list (inn g v) w = count_list (out g w) v"
    using mir wV vV by (simp add: edges_mirrored_def)
  moreover have "count_list (inn g v) w \<noteq> 0" using win by (simp add: count_list_0_iff)
  ultimately have vout: "v \<in> set (out g w)" by (simp add: count_list_0_iff)
  obtain j where j: "j < length Q" "Q ! j = v" using vQ by (auto simp add: in_set_conv_nth)
  have wattr: "w \<in> attr_set g (set vs) p (attr_targets vs cy zs)"
  proof (cases "owner g w = p")
    case True
    have "1 \<le> length (filter (\<lambda>y. y \<in> S) (out g w))" using bound [OF wV] by simp
    then have "filter (\<lambda>y. y \<in> S) (out g w) \<noteq> []" by auto
    then obtain y where "y \<in> set (out g w)" "y \<in> S" by (auto simp add: filter_empty_conv)
    with S(1) wV True show ?thesis by (blast intro: attr_set.own)
  next
    case False
    have eq: "d0 w = int (length (filter (\<lambda>y. y \<in> set vs) (out g w)))"
      using d0opp [OF w1 False] .
    then have le: "length (filter (\<lambda>y. y \<in> set vs) (out g w)) \<le> length (filter (\<lambda>y. y \<in> S) (out g w))"
      using bound [OF wV] \<open>d0 w = int (count_list E w) + 1\<close> by simp
    have all: "\<forall>y\<in>set (out g w). y \<in> set vs \<longrightarrow> y \<in> attr_set g (set vs) p (attr_targets vs cy zs)"
      using filter_length_subset_eq [OF le S(2)] S(1) by blast
    have "filter (\<lambda>y. y \<in> set vs) (out g w) \<noteq> []" using eq w1 by auto
    then have ex: "\<exists>y\<in>set (out g w). y \<in> set vs" by (auto simp add: filter_empty_conv)
    show ?thesis using wV False ex all by (rule attr_set.forced)
  qed
  show ?thesis
    unfolding step
  proof (rule attr_invI)
    show "distinct (Q @ [w])" using I(1) wQ by simp
    show "set (Q @ [w]) = attr_targets vs cy zs \<union> {x. 1 \<le> d0 x \<and> d0 x \<le> int (count_list (E @ [w]) x)}"
      using I(2) True by (rule queue_set_step(1))
    show "\<And>x. degs (z\<lparr>degs := (degs z)(w := 0), vtype := (vtype z)(w := cy),
                   zstrategy := (zstrategy z)(w := (if owner g w = p then int v else - 1))\<rparr>) x
             = d0 x - int (count_list (E @ [w]) x)"
      using True by (simp add: I(3))
    show "\<And>x. vtype (z\<lparr>degs := (degs z)(w := 0), vtype := (vtype z)(w := cy),
                   zstrategy := (zstrategy z)(w := (if owner g w = p then int v else - 1))\<rparr>) x
             = (if x \<in> set (Q @ [w]) then cy else vtype zs x)"
      by (simp add: I(4))
    show "\<And>x. x \<notin> set (Q @ [w]) \<or> x \<in> attr_targets vs cy zs \<Longrightarrow>
            zstrategy (z\<lparr>degs := (degs z)(w := 0), vtype := (vtype z)(w := cy),
                   zstrategy := (zstrategy z)(w := (if owner g w = p then int v else - 1))\<rparr>) x
             = zstrategy zs x"
      using wT I(5) by auto
    show "\<exists>i<k. zstrategy (z\<lparr>degs := (degs z)(w := 0), vtype := (vtype z)(w := cy),
                   zstrategy := (zstrategy z)(w := (if owner g w = p then int v else - 1))\<rparr>)
                   ((Q @ [w]) ! k) = int ((Q @ [w]) ! i) \<and>
                 (Q @ [w]) ! i \<in> set (out g ((Q @ [w]) ! k))"
      if k: "k < length (Q @ [w])" "(Q @ [w]) ! k \<notin> attr_targets vs cy zs"
        "owner g ((Q @ [w]) ! k) = p" for k
    proof (cases "k < length Q")
      case True
      then have qk: "(Q @ [w]) ! k = Q ! k" by (simp add: nth_append)
      have ne: "Q ! k \<noteq> w" using True wQ by (metis nth_mem)
      obtain i where i: "i < k" "zstrategy z (Q ! k) = int (Q ! i)" "Q ! i \<in> set (out g (Q ! k))"
        using I(6) [OF True] k(2,3) qk by auto
      have "(Q @ [w]) ! i = Q ! i" using i(1) True by (simp add: nth_append)
      with i qk ne show ?thesis by auto
    next
      case False
      then have kl: "k = length Q" using k(1) by simp
      then have qk: "(Q @ [w]) ! k = w" by simp
      have "(Q @ [w]) ! j = v" using j by (simp add: nth_append)
      with j kl qk k(3) vout show ?thesis by auto
    qed
    show "zstrategy (z\<lparr>degs := (degs z)(w := 0), vtype := (vtype z)(w := cy),
                   zstrategy := (zstrategy z)(w := (if owner g w = p then int v else - 1))\<rparr>)
                   ((Q @ [w]) ! k) = - 1"
      if k: "k < length (Q @ [w])" "(Q @ [w]) ! k \<notin> attr_targets vs cy zs"
        "owner g ((Q @ [w]) ! k) \<noteq> p" for k
    proof (cases "k < length Q")
      case True
      then have qk: "(Q @ [w]) ! k = Q ! k" by (simp add: nth_append)
      have ne: "Q ! k \<noteq> w" using True wQ by (metis nth_mem)
      show ?thesis using I(7) [OF True] k(2,3) qk ne by auto
    next
      case False
      then have kl: "k = length Q" using k(1) by simp
      then have qk: "(Q @ [w]) ! k = w" by simp
      with k(3) show ?thesis by auto
    qed
    show "set (Q @ [w]) \<subseteq> attr_set g (set vs) p (attr_targets vs cy zs)"
      using I(8) wattr by simp
  qed
next
  case False
  note I = attr_invD [OF inv]
  have step: "attr_edge g p cy v w (Q, z) = (Q, z\<lparr>degs := (degs z)(w := degs z w - 1)\<rparr>)"
    using False by (simp add: attr_edge_def I(3))
  show ?thesis
    unfolding step
  proof (rule attr_invI)
    show "distinct Q" using I(1) .
    show "set Q = attr_targets vs cy zs \<union> {x. 1 \<le> d0 x \<and> d0 x \<le> int (count_list (E @ [w]) x)}"
      using I(2) False by (rule queue_set_step(2))
    show "\<And>x. degs (z\<lparr>degs := (degs z)(w := degs z w - 1)\<rparr>) x = d0 x - int (count_list (E @ [w]) x)"
      by (simp add: I(3))
    show "\<And>x. vtype (z\<lparr>degs := (degs z)(w := degs z w - 1)\<rparr>) x = (if x \<in> set Q then cy else vtype zs x)"
      by (simp add: I(4))
    show "\<And>x. x \<notin> set Q \<or> x \<in> attr_targets vs cy zs \<Longrightarrow>
            zstrategy (z\<lparr>degs := (degs z)(w := degs z w - 1)\<rparr>) x = zstrategy zs x"
      using I(5) by simp
    show "\<And>k. k < length Q \<Longrightarrow> Q ! k \<notin> attr_targets vs cy zs \<Longrightarrow> owner g (Q ! k) = p \<Longrightarrow>
           \<exists>j<k. zstrategy (z\<lparr>degs := (degs z)(w := degs z w - 1)\<rparr>) (Q ! k) = int (Q ! j) \<and>
                 Q ! j \<in> set (out g (Q ! k))"
      using I(6) by simp
    show "\<And>k. k < length Q \<Longrightarrow> Q ! k \<notin> attr_targets vs cy zs \<Longrightarrow> owner g (Q ! k) \<noteq> p \<Longrightarrow>
           zstrategy (z\<lparr>degs := (degs z)(w := degs z w - 1)\<rparr>) (Q ! k) = - 1"
      using I(7) by simp
    show "set Q \<subseteq> attr_set g (set vs) p (attr_targets vs cy zs)" using I(8) .
  qed
qed

lemma attr_edge_extends: "\<exists>new. fst (attr_edge g p cy v w qz) = fst qz @ new"
  by (simp add: attr_edge_def Let_def)

lemma attr_edge_fold_inv:
  assumes mir: "edges_mirrored g vs"
    and d0in: "\<And>x. 1 \<le> d0 x \<Longrightarrow> x \<in> set vs \<and> x \<notin> attr_targets vs cy zs"
    and d0own: "\<And>x. 1 \<le> d0 x \<Longrightarrow> owner g x = p \<Longrightarrow> d0 x = 1"
    and d0opp: "\<And>x. 1 \<le> d0 x \<Longrightarrow> owner g x \<noteq> p \<Longrightarrow>
                  d0 x = int (length (filter (\<lambda>y. y \<in> set vs) (out g x)))"
    and vV: "v \<in> set vs"
    and S: "S \<subseteq> attr_set g (set vs) p (attr_targets vs cy zs)" "S \<subseteq> set vs"
    and sub: "set ws \<subseteq> set (inn g v)"
    and inv: "attr_inv g vs p cy zs d0 E qz"
    and vQ: "v \<in> set (fst qz)"
    and bound: "\<And>w. w \<in> set vs \<Longrightarrow> count_list (E @ ws) w \<le> length (filter (\<lambda>y. y \<in> S) (out g w))"
  shows "attr_inv g vs p cy zs d0 (E @ ws) (fold (attr_edge g p cy v) ws qz) \<and>
         (\<exists>new. fst (fold (attr_edge g p cy v) ws qz) = fst qz @ new)"
  using sub inv vQ bound
proof (induction ws arbitrary: E qz)
  case Nil
  then show ?case by simp
next
  case (Cons w ws)
  obtain Q z where qz: "qz = (Q, z)" by (cases qz)
  define qz1 where "qz1 = attr_edge g p cy v w (Q, z)"
  have win: "w \<in> set (inn g v)" and sub1: "set ws \<subseteq> set (inn g v)" using Cons.prems(1) by simp_all
  have b1: "count_list E w + 1 \<le> length (filter (\<lambda>y. y \<in> S) (out g w))" if "w \<in> set vs"
    using Cons.prems(4) [OF that] by simp
  have inv1: "attr_inv g vs p cy zs d0 (E @ [w]) qz1"
    unfolding qz1_def
    using Cons.prems(2) [unfolded qz] mir d0in d0own d0opp Cons.prems(3) [unfolded qz fst_conv]
      vV win S b1
    by (rule attr_edge_inv)
  obtain new1 where new1: "fst qz1 = Q @ new1"
    using attr_edge_extends [of g p cy v w "(Q, z)"] by (auto simp add: qz1_def)
  have vQ1: "v \<in> set (fst qz1)" using Cons.prems(3) new1 qz by simp
  have bound1: "count_list ((E @ [w]) @ ws) x \<le> length (filter (\<lambda>y. y \<in> S) (out g x))"
    if "x \<in> set vs" for x
    using Cons.prems(4) [OF that] by simp
  have ih: "attr_inv g vs p cy zs d0 ((E @ [w]) @ ws) (fold (attr_edge g p cy v) ws qz1) \<and>
         (\<exists>new. fst (fold (attr_edge g p cy v) ws qz1) = fst qz1 @ new)"
    using sub1 inv1 vQ1 bound1 by (rule Cons.IH)
  have f: "fold (attr_edge g p cy v) (w # ws) qz = fold (attr_edge g p cy v) ws qz1"
    by (simp add: qz qz1_def)
  show ?case
    unfolding f using ih new1 qz by auto
qed

lemma queue_within:
  assumes "attr_pre g vs cn cy zs"
    and "attr_inv g vs p cy zs (attr_degs g vs p cy zs) E (Q, z)"
  shows "set Q \<subseteq> set vs" and "length Q \<le> length vs"
proof -
  note I = attr_invD [OF assms(2)]
  have "attr_targets vs cy zs \<subseteq> set vs" by (auto simp add: attr_targets_def)
  with I(2) attr_degs_pos(1) [OF assms(1)] show s: "set Q \<subseteq> set vs" by blast
  have "length Q = card (set Q)" using I(1) by (simp add: distinct_card)
  also have "\<dots> \<le> card (set vs)" using s by (simp add: card_mono)
  also have "\<dots> \<le> length vs" by (rule card_length)
  finally show "length Q \<le> length vs" .
qed

lemma attr_loop_total:
  assumes pre: "attr_pre g vs cn cy zs"
    and inv: "attr_inv g vs p cy zs (attr_degs g vs p cy zs) (concat (map (inn g) (take i Q))) (Q, z)"
    and i: "i \<le> length Q"
  shows "\<exists>Q' z'. attr_loop g p cy i (Q, z) = Some (Q', z') \<and>
           attr_inv g vs p cy zs (attr_degs g vs p cy zs) (concat (map (inn g) Q')) (Q', z')"
  using inv i
proof (induction "length vs - i" arbitrary: i Q z rule: less_induct)
  case less
  note I = attr_invD [OF less.prems(1)]
  note W = queue_within [OF pre less.prems(1)]
  have mir: "edges_mirrored g vs" using pre by (simp add: attr_pre_def)
  show ?case
  proof (cases "i < length Q")
    case False
    then have "take i Q = Q" using less.prems(2) by simp
    moreover have "attr_loop g p cy i (Q, z) = Some (Q, z)"
      using False by (subst attr_loop.simps) simp
    ultimately show ?thesis using less.prems(1) by simp
  next
    case True
    define v where "v = Q ! i"
    define S where "S = set (take (Suc i) Q)"
    define qz1 where "qz1 = fold (attr_edge g p cy v) (inn g v) (Q, z)"
    have tk: "take (Suc i) Q = take i Q @ [v]"
      using True by (simp add: take_Suc_conv_app_nth v_def)
    have vQ: "v \<in> set (fst (Q, z))" using True by (simp add: v_def)
    then have vV: "v \<in> set vs" using W(1) by auto
    have SQ: "S \<subseteq> set Q" by (simp add: S_def set_take_subset)
    have S1: "S \<subseteq> attr_set g (set vs) p (attr_targets vs cy zs)" using SQ I(8) by blast
    have S2: "S \<subseteq> set vs" using SQ W(1) by blast
    have bound: "count_list (concat (map (inn g) (take i Q)) @ inn g v) w
                   \<le> length (filter (\<lambda>y. y \<in> S) (out g w))" if "w \<in> set vs" for w
    proof -
      have "distinct (take (Suc i) Q)" using I(1) by simp
      moreover have "set (take (Suc i) Q) \<subseteq> set vs" using S2 by (simp add: S_def)
      ultimately have "count_list (concat (map (inn g) (take (Suc i) Q))) w =
          length (filter (\<lambda>x. x \<in> set (take (Suc i) Q)) (out g w))"
        using mir that by (intro count_concat_inn)
      then show ?thesis by (simp add: tk S_def)
    qed
    have d0in: "x \<in> set vs \<and> x \<notin> attr_targets vs cy zs" if "1 \<le> attr_degs g vs p cy zs x" for x
      using attr_degs_pos(1,2) [OF pre that] by simp
    have fold1: "attr_inv g vs p cy zs (attr_degs g vs p cy zs)
                   (concat (map (inn g) (take i Q)) @ inn g v) qz1 \<and>
                 (\<exists>new. fst qz1 = fst (Q, z) @ new)"
      unfolding qz1_def
      using mir d0in attr_degs_pos(3) [OF pre] attr_degs_pos(4) [OF pre]
        vV S1 S2 subset_refl less.prems(1) vQ bound
      by (rule attr_edge_fold_inv [where S = S])
    obtain Q1 z1 where q1: "qz1 = (Q1, z1)" by (cases qz1)
    obtain new where new: "Q1 = Q @ new" using fold1 q1 by auto
    have tk1: "take (Suc i) Q1 = take i Q @ [v]" using new True tk by simp
    have inv1: "attr_inv g vs p cy zs (attr_degs g vs p cy zs)
                  (concat (map (inn g) (take (Suc i) Q1))) (Q1, z1)"
      using fold1 q1 by (simp add: tk1)
    have i1: "Suc i \<le> length Q1" using new True by simp
    have "i < length vs" using True W(2) by simp
    then have m: "length vs - Suc i < length vs - i" by simp
    have "\<exists>Q' z'. attr_loop g p cy (Suc i) (Q1, z1) = Some (Q', z') \<and>
           attr_inv g vs p cy zs (attr_degs g vs p cy zs) (concat (map (inn g) Q')) (Q', z')"
      using m inv1 i1 by (rule less.hyps)
    moreover have "attr_loop g p cy i (Q, z) = attr_loop g p cy (Suc i) (Q1, z1)"
      using True by (subst attr_loop.simps) (simp add: q1 [symmetric] qz1_def v_def)
    ultimately show ?thesis by simp
  qed
qed

lemma filter_length_imp:
  assumes "\<forall>x\<in>set xs. P x \<longrightarrow> R x"
  shows "length (filter P xs) \<le> length (filter R xs)"
  using assms by (induction xs) auto

lemma attr_inv_mem:
  assumes "attr_inv g vs p cy zs d0 E (Q, z)"
  shows "w \<in> set Q \<longleftrightarrow>
           w \<in> attr_targets vs cy zs \<or> (1 \<le> d0 w \<and> d0 w \<le> int (count_list E w))"
  using attr_invD(2) [OF assms] by (simp only: Un_iff mem_Collect_eq)

lemma attr_complete:
  assumes pre: "attr_pre g vs cn cy zs"
    and inv: "attr_inv g vs p cy zs (attr_degs g vs p cy zs) (concat (map (inn g) Q)) (Q, z)"
    and v: "v \<in> attr_set g (set vs) p (attr_targets vs cy zs)"
  shows "v \<in> set Q"
  using v
proof (induct rule: attr_set.induct)
  case (target v)
  then show ?case by (simp only: attr_inv_mem [OF inv] simp_thms)
next
  case (own v w)
  note I = attr_invD [OF inv]
  note W = queue_within [OF pre inv]
  have mir: "edges_mirrored g vs" using pre by (simp add: attr_pre_def)
  show ?case
  proof (cases "v \<in> attr_targets vs cy zs")
    case True
    then show ?thesis by (simp only: attr_inv_mem [OF inv] simp_thms)
  next
    case False
    then have d: "attr_degs g vs p cy zs v = 1"
      using own(1,2) by (simp add: attr_degs_def attr_targets_def)
    have c: "count_list (concat (map (inn g) Q)) v = length (filter (\<lambda>x. x \<in> set Q) (out g v))"
      using mir I(1) W(1) own(1) by (rule count_concat_inn)
    have "w \<in> set (filter (\<lambda>x. x \<in> set Q) (out g v))" using own(3,5) by simp
    then have "0 < length (filter (\<lambda>x. x \<in> set Q) (out g v))" by (rule length_pos_if_in_set)
    then have "1 \<le> length (filter (\<lambda>x. x \<in> set Q) (out g v))" by (simp add: Suc_le_eq)
    with d c have "1 \<le> attr_degs g vs p cy zs v \<and>
        attr_degs g vs p cy zs v \<le> int (count_list (concat (map (inn g) Q)) v)"
      by simp
    then show ?thesis by (simp only: attr_inv_mem [OF inv] simp_thms)
  qed
next
  case (forced v)
  note I = attr_invD [OF inv]
  note W = queue_within [OF pre inv]
  have mir: "edges_mirrored g vs" using pre by (simp add: attr_pre_def)
  show ?case
  proof (cases "v \<in> attr_targets vs cy zs")
    case True
    then show ?thesis by (simp only: attr_inv_mem [OF inv] simp_thms)
  next
    case False
    then have d: "attr_degs g vs p cy zs v = int (length (filter (\<lambda>x. x \<in> set vs) (out g v)))"
      using forced(1,2) by (simp add: attr_degs_def attr_targets_def)
    have c: "count_list (concat (map (inn g) Q)) v = length (filter (\<lambda>x. x \<in> set Q) (out g v))"
      using mir I(1) W(1) forced(1) by (rule count_concat_inn)
    have "\<forall>x\<in>set (out g v). x \<in> set vs \<longrightarrow> x \<in> set Q" using forced(4) by blast
    then have le: "length (filter (\<lambda>x. x \<in> set vs) (out g v)) \<le> length (filter (\<lambda>x. x \<in> set Q) (out g v))"
      by (rule filter_length_imp)
    obtain w where "w \<in> set (out g v)" "w \<in> set vs" using forced(3) by blast
    then have "w \<in> set (filter (\<lambda>x. x \<in> set vs) (out g v))" by simp
    then have "0 < length (filter (\<lambda>x. x \<in> set vs) (out g v))" by (rule length_pos_if_in_set)
    then have "1 \<le> length (filter (\<lambda>x. x \<in> set vs) (out g v))" by (simp add: Suc_le_eq)
    with d c le have "1 \<le> attr_degs g vs p cy zs v \<and>
        attr_degs g vs p cy zs v \<le> int (count_list (concat (map (inn g) Q)) v)"
      by simp
    then show ?thesis by (simp only: attr_inv_mem [OF inv] simp_thms)
  qed
qed

lemma degs_reset: "fold (\<lambda>v d. d(v := - 1)) vs d w = (if w \<in> set vs then - 1 else (d w :: int))"
  by (induction vs arbitrary: d) auto

lemma attr_init_inv:
  assumes pre: "attr_pre g vs cn cy zs"
  shows "attr_inv g vs p cy zs (attr_degs g vs p cy zs) []
           (filter (\<lambda>v. vtype zs v = cy) vs, zs\<lparr>degs := attr_degs g vs p cy zs\<rparr>)"
proof (rule attr_invI)
  have dv: "distinct vs" using pre by (simp add: attr_pre_def)
  show "distinct (filter (\<lambda>v. vtype zs v = cy) vs)" using dv by simp
  have "\<not> (1 \<le> d \<and> d \<le> int (count_list [] w))" for d :: int and w :: nat by simp
  then show "set (filter (\<lambda>v. vtype zs v = cy) vs) =
      attr_targets vs cy zs \<union> {w. 1 \<le> attr_degs g vs p cy zs w \<and>
                                 attr_degs g vs p cy zs w \<le> int (count_list [] w)}"
    by (auto simp add: attr_targets_def)
  show "\<And>w. degs (zs\<lparr>degs := attr_degs g vs p cy zs\<rparr>) w = attr_degs g vs p cy zs w - int (count_list [] w)"
    by simp
  show "\<And>w. vtype (zs\<lparr>degs := attr_degs g vs p cy zs\<rparr>) w =
          (if w \<in> set (filter (\<lambda>v. vtype zs v = cy) vs) then cy else vtype zs w)"
    by simp
  show "\<And>w. w \<notin> set (filter (\<lambda>v. vtype zs v = cy) vs) \<or> w \<in> attr_targets vs cy zs \<Longrightarrow>
          zstrategy (zs\<lparr>degs := attr_degs g vs p cy zs\<rparr>) w = zstrategy zs w"
    by simp
  have t: "filter (\<lambda>v. vtype zs v = cy) vs ! k \<in> attr_targets vs cy zs"
    if "k < length (filter (\<lambda>v. vtype zs v = cy) vs)" for k
  proof -
    have "filter (\<lambda>v. vtype zs v = cy) vs ! k \<in> set (filter (\<lambda>v. vtype zs v = cy) vs)"
      using that by (rule nth_mem)
    then show ?thesis by (simp add: attr_targets_def)
  qed
  show "\<And>k. k < length (filter (\<lambda>v. vtype zs v = cy) vs) \<Longrightarrow>
          filter (\<lambda>v. vtype zs v = cy) vs ! k \<notin> attr_targets vs cy zs \<Longrightarrow>
          owner g (filter (\<lambda>v. vtype zs v = cy) vs ! k) = p \<Longrightarrow>
          \<exists>j<k. zstrategy (zs\<lparr>degs := attr_degs g vs p cy zs\<rparr>) (filter (\<lambda>v. vtype zs v = cy) vs ! k)
                  = int (filter (\<lambda>v. vtype zs v = cy) vs ! j) \<and>
                filter (\<lambda>v. vtype zs v = cy) vs ! j \<in> set (out g (filter (\<lambda>v. vtype zs v = cy) vs ! k))"
    using t by blast
  show "\<And>k. k < length (filter (\<lambda>v. vtype zs v = cy) vs) \<Longrightarrow>
          filter (\<lambda>v. vtype zs v = cy) vs ! k \<notin> attr_targets vs cy zs \<Longrightarrow>
          owner g (filter (\<lambda>v. vtype zs v = cy) vs ! k) \<noteq> p \<Longrightarrow>
          zstrategy (zs\<lparr>degs := attr_degs g vs p cy zs\<rparr>) (filter (\<lambda>v. vtype zs v = cy) vs ! k) = - 1"
    using t by blast
  show "set (filter (\<lambda>v. vtype zs v = cy) vs) \<subseteq> attr_set g (set vs) p (attr_targets vs cy zs)"
    by (auto simp add: attr_targets_def intro: attr_set.target)
qed

text \<open>
  Claim C8. Let \<^verbatim>\<open>attractor(vs, p, cat_no, cat_yes)\<close> be called under its precondition: a
  vertex has category \<open>cat_no\<close> or \<open>cat_yes\<close> exactly when it is in \<open>vs\<close> (over a game whose
  in-lists mirror its out-lists, with \<open>vs\<close> free of repetitions and the scratch array
  \<^verbatim>\<open>degs\<close> negative, as the constructor and every earlier call leave it). Then the call
  returns, and the vertices of \<open>vs\<close> that carry \<open>cat_yes\<close> afterwards are exactly those from
  which \<open>p\<close> can force the play into the vertices that carried \<open>cat_yes\<close> before while staying
  in \<open>vs\<close>; every other vertex keeps its category. The attracted vertices can be listed in
  an order \<open>Q\<close> in which each newly attracted vertex of \<open>p\<close> has as its strategy one of its
  successors listed earlier, and each newly attracted vertex of the opponent has strategy
  \<open>-1\<close>. The strategy of every other vertex, and the category and the strategy of every
  vertex outside \<open>vs\<close>, are as before, and \<^verbatim>\<open>degs\<close> is negative again.
\<close>

theorem attractor_relabels:
  assumes "attr_pre g vs cat_no cat_yes zs"
  shows "\<exists>zs' Q. attractor g vs p cat_no cat_yes zs = Some zs' \<and>
           distinct Q \<and> set Q = attr_set g (set vs) p (attr_targets vs cat_yes zs) \<and>
           (\<forall>v\<in>set vs. vtype zs' v = cat_yes \<longleftrightarrow> v \<in> set Q) \<and>
           (\<forall>v. v \<notin> set Q \<longrightarrow> vtype zs' v = vtype zs v) \<and>
           (\<forall>k<length Q. Q ! k \<notin> attr_targets vs cat_yes zs \<longrightarrow>
              (if owner g (Q ! k) = p
               then \<exists>j<k. zstrategy zs' (Q ! k) = int (Q ! j) \<and> Q ! j \<in> set (out g (Q ! k))
               else zstrategy zs' (Q ! k) = - 1)) \<and>
           (\<forall>v. v \<notin> set Q \<or> v \<in> attr_targets vs cat_yes zs \<longrightarrow> zstrategy zs' v = zstrategy zs v) \<and>
           (\<forall>v. v \<notin> set vs \<longrightarrow> vtype zs' v = vtype zs v \<and> zstrategy zs' v = zstrategy zs v) \<and>
           (\<forall>w. degs zs' w < 0)"
proof -
  let ?T = "attr_targets vs cat_yes zs"
  let ?d0 = "attr_degs g vs p cat_yes zs"
  let ?Q0 = "filter (\<lambda>v. vtype zs v = cat_yes) vs"
  let ?z0 = "zs\<lparr>degs := ?d0\<rparr>"
  have init: "fold (attr_init g p cat_no cat_yes) vs ([], zs) = (?Q0, ?z0)"
    using assms by (rule attr_init_result)
  have "attr_inv g vs p cat_yes zs ?d0 [] (?Q0, ?z0)"
    using assms by (rule attr_init_inv)
  then have inv0: "attr_inv g vs p cat_yes zs ?d0 (concat (map (inn g) (take 0 ?Q0))) (?Q0, ?z0)"
    by simp
  obtain Q z where loop: "attr_loop g p cat_yes 0 (?Q0, ?z0) = Some (Q, z)"
    and inv: "attr_inv g vs p cat_yes zs ?d0 (concat (map (inn g) Q)) (Q, z)"
    using attr_loop_total [OF assms inv0] by auto
  define zs' where "zs' = z\<lparr>degs := fold (\<lambda>v d. d(v := - 1)) vs (degs z)\<rparr>"
  have res: "attractor g vs p cat_no cat_yes zs = Some zs'"
    by (simp add: attractor_def init loop zs'_def)
  note I = attr_invD [OF inv]
  note W = queue_within [OF assms inv]
  have vt: "vtype zs' = vtype z" and st: "zstrategy zs' = zstrategy z"
    by (simp_all add: zs'_def)
  have "attr_set g (set vs) p ?T \<subseteq> set Q"
    using attr_complete [OF assms inv] by blast
  with I(8) have Qset: "set Q = attr_set g (set vs) p ?T" by blast
  have TQ: "?T \<subseteq> set Q" using Qset by (auto intro: attr_set.target)
  have c1: "\<forall>v\<in>set vs. vtype zs' v = cat_yes \<longleftrightarrow> v \<in> set Q"
  proof
    fix v assume v: "v \<in> set vs"
    show "vtype zs' v = cat_yes \<longleftrightarrow> v \<in> set Q"
    proof (cases "v \<in> set Q")
      case True
      then show ?thesis by (simp add: vt I(4))
    next
      case False
      then have "v \<notin> ?T" using TQ by blast
      then have "vtype zs v \<noteq> cat_yes" using v by (simp add: attr_targets_def)
      with False show ?thesis by (simp add: vt I(4))
    qed
  qed
  have c2: "\<forall>v. v \<notin> set Q \<longrightarrow> vtype zs' v = vtype zs v" by (simp add: vt I(4))
  have c3: "\<forall>k<length Q. Q ! k \<notin> ?T \<longrightarrow>
              (if owner g (Q ! k) = p
               then \<exists>j<k. zstrategy zs' (Q ! k) = int (Q ! j) \<and> Q ! j \<in> set (out g (Q ! k))
               else zstrategy zs' (Q ! k) = - 1)"
    unfolding st using I(6) I(7) by presburger
  have c4: "\<forall>v. v \<notin> set Q \<or> v \<in> ?T \<longrightarrow> zstrategy zs' v = zstrategy zs v"
    unfolding st using I(5) by blast
  have c5: "\<forall>v. v \<notin> set vs \<longrightarrow> vtype zs' v = vtype zs v \<and> zstrategy zs' v = zstrategy zs v"
  proof (intro allI impI)
    fix v assume "v \<notin> set vs"
    then have "v \<notin> set Q" using W(1) by blast
    then show "vtype zs' v = vtype zs v \<and> zstrategy zs' v = zstrategy zs v"
      using c2 c4 by blast
  qed
  have c6: "\<forall>w. degs zs' w < 0"
  proof
    fix w
    show "degs zs' w < 0"
    proof (cases "w \<in> set vs")
      case True
      then show ?thesis by (simp add: zs'_def degs_reset)
    next
      case False
      have "degs zs w < 0" using assms by (simp add: attr_pre_def)
      then have "attr_degs g vs p cat_yes zs w < 0" using False by (simp add: attr_degs_def)
      then have "degs z w < 0" by (simp add: I(3))
      then show ?thesis using False by (simp add: zs'_def degs_reset)
    qed
  qed
  show ?thesis
    using res I(1) Qset c1 c2 c3 c4 c5 c6 by blast
qed

lemma chain_pre: "attr_pre game_chain [0, 1, 2] 0 1 chain_solver"
proof -
  have m: "edges_mirrored game_chain [0, 1, 2]"
    by (simp add: edges_mirrored_def game_chain_def new_oink_def arr_def)
  have v: "(vtype chain_solver x = 0 \<or> vtype chain_solver x = 1) \<longleftrightarrow> x \<in> set [0, 1, 2]" for x
  proof (cases "x < 3")
    case True
    then have "x = 0 \<or> x = 1 \<or> x = 2" by arith
    then show ?thesis by (auto simp add: chain_solver_def arr_def)
  next
    case False
    then show ?thesis by (auto simp add: chain_solver_def arr_def)
  qed
  have d: "degs chain_solver w < 0" for w
    by (simp add: chain_solver_def new_zsolver_def)
  show ?thesis
    unfolding attr_pre_def using m v d by simp
qed

lemma chain_attracted:
  "map_option (\<lambda>z. (map (vtype z) [0, 1, 2], map (zstrategy z) [0, 1, 2]))
     (attractor game_chain [0, 1, 2] 1 0 1 chain_solver) = Some ([1, 1, 1], [- 1, 2, 0])"
  by code_simp

theorem attractor_relabels_witness:
  "\<exists>zs'. attractor game_chain [0, 1, 2] 1 0 1 chain_solver = Some zs' \<and>
         map (vtype zs') [0, 1, 2] = [1, 1, 1] \<and>
         map (zstrategy zs') [0, 1, 2] = [- 1, 2, 0] \<and>
         (\<forall>w. degs zs' w < 0)"
proof -
  from attractor_relabels [OF chain_pre, of 1]
  obtain zs' where a: "attractor game_chain [0, 1, 2] 1 0 1 chain_solver = Some zs'"
    and d: "\<forall>w. degs zs' w < 0"
    by blast
  from chain_attracted a have v: "map (vtype zs') [0, 1, 2] = [1, 1, 1]"
    and s: "map (zstrategy zs') [0, 1, 2] = [- 1, 2, 0]"
    by simp_all
  show ?thesis
  proof (rule exI [of _ zs'], intro conjI)
    show "attractor game_chain [0, 1, 2] 1 0 1 chain_solver = Some zs'" by (rule a)
    show "map (vtype zs') [0, 1, 2] = [1, 1, 1]" by (rule v)
    show "map (zstrategy zs') [0, 1, 2] = [- 1, 2, 0]" by (rule s)
    show "\<forall>w. degs zs' w < 0" by (rule d)
  qed
qed

section \<open>Every vertex is solved when the driver returns\<close>

subsection \<open>Winners are players\<close>

lemma for_each_invariant:
  assumes "for_each f xs s = Inr s'" and "P s"
    and "\<And>x s s'. x \<in> set xs \<Longrightarrow> P s \<Longrightarrow> f x s = Inr s' \<Longrightarrow> P s'"
  shows "P s'"
  using assms
proof (induction xs arbitrary: s)
  case Nil
  then show ?case by simp
next
  case (Cons x xs)
  from Cons.prems(1) obtain s1 where s1: "f x s = Inr s1" and r: "for_each f xs s1 = Inr s'"
    by (cases "f x s") auto
  have "P s1" using Cons.prems(3) [OF _ Cons.prems(2) s1] by simp
  with r show ?case
    using Cons.prems(3) by (intro Cons.IH [of s1]) auto
qed

lemma for_each_opt_invariant:
  assumes "for_each_opt f xs s = Some (Inr s')" and "P s"
    and "\<And>x s s'. x \<in> set xs \<Longrightarrow> P s \<Longrightarrow> f x s = Some (Inr s') \<Longrightarrow> P s'"
  shows "P s'"
  using assms
proof (induction xs arbitrary: s)
  case Nil
  then show ?case by simp
next
  case (Cons x xs)
  from Cons.prems(1) obtain s1 where s1: "f x s = Some (Inr s1)"
    and r: "for_each_opt f xs s1 = Some (Inr s')"
    by (auto split: option.splits sum.splits)
  have "P s1" using Cons.prems(3) [OF _ Cons.prems(2) s1] by simp
  with r show ?case
    using Cons.prems(3) by (intro Cons.IH [of s1]) auto
qed

lemma solve_winners:
  assumes "solve v win strat s = Inr s'" and "winners_inv n ow s" and "win = 0 \<or> win = 1"
  shows "winners_inv n ow s'"
  using assms by (auto simp add: solve_def winners_inv_def split: if_splits)

lemma flush_in_winners:
  assumes "winners_inv n ow s" and "w = 0 \<or> w = 1"
  shows "winners_inv n ow (flush_in v w u s)"
  using assms by (auto simp add: flush_in_def winners_inv_def Let_def)

lemma flush_winners:
  assumes "flush s = Some s'"
  shows "winners_inv n ow s \<longrightarrow> winners_inv n ow s'"
proof (rule flush.raw_induct
    [where P = "\<lambda>s s'. winners_inv n ow s \<longrightarrow> winners_inv n ow s'", OF _ assms])
  fix fl :: "oink \<Rightarrow> oink option" and s s' :: oink
  assume IH: "\<And>s s'. fl s = Some s' \<Longrightarrow> winners_inv n ow s \<longrightarrow> winners_inv n ow s'"
    and body: "(case todo s of
        [] \<Rightarrow> Some s
      | v # rest \<Rightarrow>
          if outcount s v = - 1 then Some (s\<lparr>todo := rest\<rparr>)
          else
            (let s1 = s\<lparr>todo := rest, outcount := (outcount s)(v := - 1)\<rparr>;
                 w = (if winner s1 v \<noteq> 0 then 1 else 0)
             in fl (fold (flush_in v w) (inn s1 v) s1))) = Some s'"
  show "winners_inv n ow s \<longrightarrow> winners_inv n ow s'"
  proof
    assume inv: "winners_inv n ow s"
    show "winners_inv n ow s'"
    proof (cases "todo s")
      case Nil
      with body inv show ?thesis by simp
    next
      case (Cons v rest)
      show ?thesis
      proof (cases "outcount s v = - 1")
        case True
        with body Cons inv show ?thesis by (auto simp add: winners_inv_def)
      next
        case False
        define s1 where "s1 = s\<lparr>todo := rest, outcount := (outcount s)(v := - 1)\<rparr>"
        define w :: int where "w = (if winner s1 v \<noteq> 0 then 1 else 0)"
        have r: "fl (fold (flush_in v w) (inn s1 v) s1) = Some s'"
          using body Cons False by (simp add: s1_def w_def Let_def)
        have "winners_inv n ow s1" using inv by (simp add: winners_inv_def s1_def)
        moreover have "w = 0 \<or> w = 1" by (simp add: w_def)
        ultimately have "winners_inv n ow (fold (flush_in v w) (inn s1 v) s1)"
          by (intro fold_invariant [where P = "winners_inv n ow"]) (auto intro: flush_in_winners)
        with IH [OF r] show ?thesis by simp
      qed
    qed
  qed
qed

lemma selfloop_vertex_winners:
  assumes "selfloop_vertex v sr = Inr sr'" and "winners_inv n ow (fst sr)"
    and "ow v = 0 \<or> ow v = 1"
  shows "winners_inv n ow (fst sr')"
proof -
  have o: "owner (fst sr) v = ow v" using assms(2) by (simp add: winners_inv_def)
  have c: "(1 - ow v = 0) \<or> (1 - ow v = 1)" using assms(3) by auto
  show ?thesis
    using assms(1,2) assms(3) c o
    by (auto simp add: selfloop_vertex_def Let_def winners_inv_def solve_def
        split: if_splits sum.splits)
qed

lemma solveSelfloops_winners:
  assumes "solveSelfloops s = Some (Inr (k, s'))" and "winners_inv n ow s"
    and "\<forall>v<n. ow v = 0 \<or> ow v = 1"
  shows "winners_inv n ow s'"
proof -
  from assms(1) obtain sr where f: "for_each selfloop_vertex [0..<n_nodes s] (s, 0) = Inr sr"
    and fl: "flush (fst sr) = Some s'"
    by (auto simp add: solveSelfloops_def split: sum.splits)
  have nn: "n_nodes s = n" using assms(2) by (simp add: winners_inv_def)
  have "winners_inv n ow (fst sr)"
    using f
  proof (rule for_each_invariant [where P = "\<lambda>sr. winners_inv n ow (fst sr)"])
    show "winners_inv n ow (fst (s, 0::int))" using assms(2) by simp
  next
    fix x and t t' :: "oink \<times> int"
    assume "x \<in> set [0..<n_nodes s]" and "winners_inv n ow (fst t)" and "selfloop_vertex x t = Inr t'"
    then show "winners_inv n ow (fst t')"
      using assms(3) nn by (intro selfloop_vertex_winners [of x t t']) auto
  qed
  with flush_winners [OF fl] show ?thesis by simp
qed

lemma tc_back_edge_winners:
  assumes "tc_back_edge lw mn pl cur frm qs = Inr qs'" and "winners_inv n ow (snd qs)"
    and "pl = 0 \<or> pl = 1"
  shows "winners_inv n ow (snd qs')"
proof (cases "lw frm \<noteq> mn \<or> disabled (snd qs) frm")
  case True
  with assms(1,2) show ?thesis by (simp add: tc_back_edge_def Let_def)
next
  case False
  with assms(1) obtain s1 where s: "solve frm pl (int cur) (snd qs) = Inr s1"
    and q: "qs' = (fst qs @ [frm], s1)"
    by (auto simp add: tc_back_edge_def Let_def split: sum.splits)
  from solve_winners [OF s assms(2,3)] q show ?thesis by simp
qed

lemma tc_back_winners:
  assumes "tc_back lw mn pl qs = Some r"
  shows "winners_inv n ow (snd qs) \<and> (pl = 0 \<or> pl = 1) \<longrightarrow> (\<forall>s'. r = Inr s' \<longrightarrow> winners_inv n ow s')"
proof (rule tc_back.raw_induct
    [where P = "\<lambda>lw mn pl qs r. winners_inv n ow (snd qs) \<and> (pl = 0 \<or> pl = 1) \<longrightarrow>
                  (\<forall>s'. r = Inr s' \<longrightarrow> winners_inv n ow s')", OF _ assms])
  fix bk :: "(nat \<Rightarrow> int) \<Rightarrow> int \<Rightarrow> int \<Rightarrow> nat list \<times> oink \<Rightarrow> (error + oink) option"
    and lw :: "nat \<Rightarrow> int" and mn pl :: int and qs :: "nat list \<times> oink" and r :: "error + oink"
  assume IH: "\<And>lw mn pl qs r. bk lw mn pl qs = Some r \<Longrightarrow>
      winners_inv n ow (snd qs) \<and> (pl = 0 \<or> pl = 1) \<longrightarrow> (\<forall>s'. r = Inr s' \<longrightarrow> winners_inv n ow s')"
    and body: "(case fst qs of
        [] \<Rightarrow> Some (Inr (snd qs))
      | cur # q \<Rightarrow>
          (case for_each (tc_back_edge lw mn pl cur) (inn (snd qs) cur) (q, snd qs) of
             Inl e \<Rightarrow> Some (Inl e)
           | Inr qs' \<Rightarrow> bk lw mn pl qs')) = Some r"
  show "winners_inv n ow (snd qs) \<and> (pl = 0 \<or> pl = 1) \<longrightarrow> (\<forall>s'. r = Inr s' \<longrightarrow> winners_inv n ow s')"
  proof (intro impI allI)
    fix s' assume a: "winners_inv n ow (snd qs) \<and> (pl = 0 \<or> pl = 1)" and r: "r = Inr s'"
    show "winners_inv n ow s'"
    proof (cases "fst qs")
      case Nil
      with body r a show ?thesis by simp
    next
      case (Cons cur q)
      with body r obtain qs1 where
        f: "for_each (tc_back_edge lw mn pl cur) (inn (snd qs) cur) (q, snd qs) = Inr qs1"
        and b: "bk lw mn pl qs1 = Some r"
        by (auto split: sum.splits)
      have "winners_inv n ow (snd qs1)"
        using f
      proof (rule for_each_invariant [where P = "\<lambda>qs. winners_inv n ow (snd qs)"])
        show "winners_inv n ow (snd (q, snd qs))" using a by simp
      next
        fix x and t t' :: "nat list \<times> oink"
        assume "winners_inv n ow (snd t)" and "tc_back_edge lw mn pl cur x t = Inr t'"
        then show "winners_inv n ow (snd t')"
          using a by (intro tc_back_edge_winners [of lw mn pl cur x t t']) auto
      qed
      with IH [OF b] a r show ?thesis by simp
    qed
  qed
qed

lemma tc_collect_ok:
  assumes "tc_collect idx pr pl mn t acc rs = Inr ta"
  shows "ok (fst ta) = ok t"
  using assms
proof (induction rs arbitrary: t acc)
  case Nil
  then show ?case by simp
next
  case (Cons x rs)
  define t1 where "t1 = t\<lparr>res := rs, done_arr := (done_arr t)(x := pr),
                 low := (if low t x \<noteq> mn then (low t)(x := mn) else low t)\<rparr>"
  have o: "ok t1 = ok t" by (simp add: t1_def)
  show ?case
  proof (cases "x = idx")
    case True
    with Cons.prems show ?thesis by (auto simp add: Let_def)
  next
    case False
    with Cons.prems obtain acc1 where "tc_collect idx pr pl mn t1 acc1 rs = Inr ta"
      by (simp add: Let_def t1_def)
    from Cons.IH [OF this] o show ?thesis by simp
  qed
qed

lemma tc_iter_winners:
  assumes it: "tc_iter i pr pl botm t0 = Some (Inr t')" and inv: "winners_inv n ow (ok t0)"
    and pl: "pl = 0 \<or> pl = 1"
  shows "winners_inv n ow (ok t')"
proof -
  define idx where "idx = hd (st t0)"
  define t1 where "t1 = (if low t0 idx \<le> botm
                then t0\<lparr>low := (low t0)(idx := pre t0 + 1), pre := pre t0 + 1, res := idx # res t0\<rparr>
                else t0)"
  define em where "em = tc_edges t1 i pr pl botm (out (ok t1) idx) (low t1 idx)"
  have ok1: "ok t1 = ok t0" by (simp add: t1_def)
  have body: "(case fst em of
           Some to \<Rightarrow> Some (Inr (t1\<lparr>st := to # st t1\<rparr>))
         | None \<Rightarrow>
              if snd em < low t1 idx then
                Some (Inr (t1\<lparr>low := (low t1)(idx := snd em), st := tl (st t1)\<rparr>))
              else
                (case tc_collect idx pr pl (snd em) t1 ([], - 1, - 1, - 1) (res t1) of
                   Inl e \<Rightarrow> Some (Inl e)
                 | Inr ta \<Rightarrow>
                      if length (fst (snd ta)) = 1 \<and> idx \<notin> set (out (ok (fst ta)) idx) then
                        Some (Inr ((fst ta)\<lparr>done_arr := (done_arr (fst ta))(idx := - 2), st := tl (st (fst ta))\<rparr>))
                      else if low_bit (fst (snd (snd ta))) \<noteq> pl then
                        Some (Inr ((fst ta)\<lparr>done_arr :=
                                        fold (\<lambda>n d. if priority (ok (fst ta)) n > fst (snd (snd (snd ta)))
                                                     then d(n := - 2) else d) (fst (snd ta)) (done_arr (fst ta)),
                                      st := tl (st (fst ta))\<rparr>))
                      else
                        Option.bind (tc_back (low (fst ta)) (snd em) pl ([nat (snd (snd (snd (snd ta))))], ok (fst ta))) (\<lambda>r.
                          case r of
                            Inl e \<Rightarrow> Some (Inl e)
                          | Inr s1 \<Rightarrow>
                              Option.bind (flush s1) (\<lambda>s2.
                                Some (Inr ((fst ta)\<lparr>ok := s2, st := [], res := [],
                                              count := count (fst ta) + 1\<rparr>)))))) = Some (Inr t')"
    using it unfolding tc_iter_def Let_def idx_def [symmetric] t1_def [symmetric] em_def [symmetric] .
  show ?thesis
  proof (cases "fst em")
    case (Some to)
    with body have "t' = t1\<lparr>st := to # st t1\<rparr>" by simp
    with inv ok1 show ?thesis by simp
  next
    case None
    show ?thesis
    proof (cases "snd em < low t1 idx")
      case True
      with body None have "t' = t1\<lparr>low := (low t1)(idx := snd em), st := tl (st t1)\<rparr>" by simp
      with inv ok1 show ?thesis by simp
    next
      case False
      with body None obtain ta where c: "tc_collect idx pr pl (snd em) t1 ([], - 1, - 1, - 1) (res t1) = Inr ta"
        and rest: "(if length (fst (snd ta)) = 1 \<and> idx \<notin> set (out (ok (fst ta)) idx) then
                        Some (Inr ((fst ta)\<lparr>done_arr := (done_arr (fst ta))(idx := - 2), st := tl (st (fst ta))\<rparr>))
                      else if low_bit (fst (snd (snd ta))) \<noteq> pl then
                        Some (Inr ((fst ta)\<lparr>done_arr :=
                                        fold (\<lambda>n d. if priority (ok (fst ta)) n > fst (snd (snd (snd ta)))
                                                     then d(n := - 2) else d) (fst (snd ta)) (done_arr (fst ta)),
                                      st := tl (st (fst ta))\<rparr>))
                      else
                        Option.bind (tc_back (low (fst ta)) (snd em) pl ([nat (snd (snd (snd (snd ta))))], ok (fst ta))) (\<lambda>r.
                          case r of
                            Inl e \<Rightarrow> Some (Inl e)
                          | Inr s1 \<Rightarrow>
                              Option.bind (flush s1) (\<lambda>s2.
                                Some (Inr ((fst ta)\<lparr>ok := s2, st := [], res := [],
                                              count := count (fst ta) + 1\<rparr>))))) = Some (Inr t')"
        by (cases "tc_collect idx pr pl (snd em) t1 ([], - 1, - 1, - 1) (res t1)") simp_all
      have ok2: "ok (fst ta) = ok t0" using tc_collect_ok [OF c] ok1 by simp
      show ?thesis
      proof (cases "length (fst (snd ta)) = 1 \<and> idx \<notin> set (out (ok (fst ta)) idx)")
        case True
        with rest have "t' = (fst ta)\<lparr>done_arr := (done_arr (fst ta))(idx := - 2), st := tl (st (fst ta))\<rparr>"
          by simp
        with inv ok2 show ?thesis by simp
      next
        case single: False
        show ?thesis
        proof (cases "low_bit (fst (snd (snd ta))) \<noteq> pl")
          case True
          with rest single have "ok t' = ok (fst ta)" by auto
          with inv ok2 show ?thesis by simp
        next
          case False
          have "Option.bind (tc_back (low (fst ta)) (snd em) pl ([nat (snd (snd (snd (snd ta))))], ok (fst ta))) (\<lambda>r.
                          case r of
                            Inl e \<Rightarrow> Some (Inl e)
                          | Inr s1 \<Rightarrow>
                              Option.bind (flush s1) (\<lambda>s2.
                                Some (Inr ((fst ta)\<lparr>ok := s2, st := [], res := [],
                                              count := count (fst ta) + 1\<rparr>)))) = Some (Inr t')"
            using rest single False by (simp only: if_False)
          then show ?thesis
          proof (rule bind_case_sum_Inr)
            fix s1
            assume b: "tc_back (low (fst ta)) (snd em) pl ([nat (snd (snd (snd (snd ta))))], ok (fst ta))
                         = Some (Inr s1)"
              and f: "Option.bind (flush s1) (\<lambda>s2.
                                Some (Inr ((fst ta)\<lparr>ok := s2, st := [], res := [],
                                              count := count (fst ta) + 1\<rparr>))) = Some (Inr t')"
            from f obtain s2 where fl: "flush s1 = Some s2" and t': "ok t' = s2"
              by (auto simp add: Option.bind_eq_Some_conv)
            have "winners_inv n ow s1"
              using tc_back_winners [OF b, of n ow] inv ok2 pl by simp
            with flush_winners [OF fl, of n ow] t' show "winners_inv n ow (ok t')" by simp
          qed
        qed
      qed
    qed
  qed
qed

lemma tc_search_winners:
  assumes "tc_search i pr pl botm t = Some r"
  shows "winners_inv n ow (ok t) \<and> (pl = 0 \<or> pl = 1) \<longrightarrow> (\<forall>t'. r = Inr t' \<longrightarrow> winners_inv n ow (ok t'))"
proof (rule tc_search.raw_induct
    [where P = "\<lambda>i pr pl botm t r. winners_inv n ow (ok t) \<and> (pl = 0 \<or> pl = 1) \<longrightarrow>
                  (\<forall>t'. r = Inr t' \<longrightarrow> winners_inv n ow (ok t'))", OF _ assms])
  fix srch :: "nat \<Rightarrow> int \<Rightarrow> int \<Rightarrow> int \<Rightarrow> tc \<Rightarrow> (error + tc) option"
    and i :: nat and pr pl botm :: int and t :: tc and r :: "error + tc"
  assume IH: "\<And>i pr pl botm t r. srch i pr pl botm t = Some r \<Longrightarrow>
      winners_inv n ow (ok t) \<and> (pl = 0 \<or> pl = 1) \<longrightarrow> (\<forall>t'. r = Inr t' \<longrightarrow> winners_inv n ow (ok t'))"
    and body: "(if st t = [] then Some (Inr t)
      else Option.bind (tc_iter i pr pl botm t) (\<lambda>r.
             case r of Inl e \<Rightarrow> Some (Inl e) | Inr t' \<Rightarrow> srch i pr pl botm t')) = Some r"
  show "winners_inv n ow (ok t) \<and> (pl = 0 \<or> pl = 1) \<longrightarrow> (\<forall>t'. r = Inr t' \<longrightarrow> winners_inv n ow (ok t'))"
  proof (intro impI allI)
    fix t' assume a: "winners_inv n ow (ok t) \<and> (pl = 0 \<or> pl = 1)" and r: "r = Inr t'"
    show "winners_inv n ow (ok t')"
    proof (cases "st t = []")
      case True
      with body r a show ?thesis by simp
    next
      case False
      with body r obtain t1 where it: "tc_iter i pr pl botm t = Some (Inr t1)"
        and s: "srch i pr pl botm t1 = Some (Inr t')"
        by (auto elim: bind_case_sum_Inr)
      have "winners_inv n ow (ok t1)" using tc_iter_winners [OF it] a by blast
      with IH [OF s] a show ?thesis by simp
    qed
  qed
qed

lemma tc_root_winners:
  assumes "tc_root i t = Some (Inr t')" and "winners_inv n ow (ok t)"
  shows "winners_inv n ow (ok t')"
proof -
  have pl: "low_bit (priority (ok t) i) = 0 \<or> low_bit (priority (ok t) i) = 1"
    by (simp add: low_bit_def) arith
  consider (same) "ok t' = ok t"
    | (search) "tc_search i (priority (ok t) i) (low_bit (priority (ok t) i)) (pre t) (t\<lparr>st := i # st t\<rparr>)
                 = Some (Inr t')"
    using assms(1) by (auto simp add: tc_root_def Let_def split: if_splits)
  then show ?thesis
  proof cases
    case same
    with assms(2) show ?thesis by simp
  next
    case search
    from tc_search_winners [OF search, of n ow] assms(2) pl show ?thesis by simp
  qed
qed

lemma solveTrivialCycles_winners:
  assumes "solveTrivialCycles s = Some (Inr (k, s'))" and "winners_inv n ow s"
  shows "winners_inv n ow s'"
proof -
  from assms(1) obtain t where f: "for_each_opt tc_root (rev [0..<n_nodes s]) (tc_init s) = Some (Inr t)"
    and s': "s' = ok t"
    by (cases "for_each_opt tc_root (rev [0..<n_nodes s]) (tc_init s)")
       (auto simp add: solveTrivialCycles_def map_sum_def split: sum.splits)
  have "winners_inv n ow (ok t)"
    using f
  proof (rule for_each_opt_invariant [where P = "\<lambda>t. winners_inv n ow (ok t)"])
    show "winners_inv n ow (ok (tc_init s))" using assms(2) by (simp add: tc_init_def)
  next
    fix x and u u' :: tc
    assume "winners_inv n ow (ok u)" and "tc_root x u = Some (Inr u')"
    then show "winners_inv n ow (ok u')" by (intro tc_root_winners [of x u u'])
  qed
  with s' show ?thesis by simp
qed

lemma absorb_winners:
  assumes "absorb zs i s = Inr s'" and "winners_inv n ow s" and "ow i = 0 \<or> ow i = 1"
  shows "winners_inv n ow s'"
proof (cases "solved s i")
  case True
  with assms(1,2) show ?thesis by (simp add: absorb_def)
next
  case False
  have o: "owner s i = ow i" using assms(2) by (simp add: winners_inv_def)
  show ?thesis
  proof (cases "zstrategy zs i \<ge> 0")
    case True
    with False assms(1) have sv: "solve i (owner s i) (zstrategy zs i) s = Inr s'"
      by (simp add: absorb_def)
    have w: "owner s i = 0 \<or> owner s i = 1" using assms(3) o by simp
    from solve_winners [OF sv assms(2) w] show ?thesis .
  next
    case neg: False
    with False assms(1) have "solve i (if owner s i = 0 then 1 else 0) (- 1) s = Inr s'"
      by (simp add: absorb_def)
    then show ?thesis using assms(2) by (rule solve_winners) simp
  qed
qed

lemma experimental_run_winners:
  assumes "experimental_run fl (s, gl) = Some (Inr (s', gl'))" and "winners_inv n ow s"
    and "\<forall>v<n. ow v = 0 \<or> ow v = 1"
  shows "winners_inv n ow s'"
proof -
  from assms(1) obtain zs where
    c: "(case for_each (absorb zs) [0..<n_nodes s] s of
           Inl e \<Rightarrow> Inl e
         | Inr s' \<Rightarrow> Inr (s', \<lparr>g_last_category = last_category zs, g_memo = memo zs\<rparr>))
        = Inr (s', gl')"
    by (auto simp: experimental_run_def Option.bind_eq_Some_conv)
  then have f: "for_each (absorb zs) [0..<n_nodes s] s = Inr s'"
    by (cases "for_each (absorb zs) [0..<n_nodes s] s") auto
  have nn: "n_nodes s = n" using assms(2) by (simp add: winners_inv_def)
  show ?thesis
    using f assms(2)
  proof (rule for_each_invariant [where P = "winners_inv n ow"])
    fix x and t t' :: oink
    assume "x \<in> set [0..<n_nodes s]" and "winners_inv n ow t" and "absorb zs x t = Inr t'"
    then show "winners_inv n ow t'"
      using assms(3) nn by (auto intro: absorb_winners [of zs x t t'])
  qed
qed

lemma set_mask_winners:
  assumes "winners_inv n ow s"
  shows "winners_inv n ow (set_mask cfg col s)"
proof -
  have "winners_inv n ow (fold (\<lambda>i s'. s'\<lparr>disabled := (disabled s')(i := False)\<rparr>) xs t)"
    if "winners_inv n ow t" for xs and t :: oink
    using that by (intro fold_invariant [where P = "winners_inv n ow"]) (auto simp add: winners_inv_def)
  from this [of "s\<lparr>disabled := \<lambda>_. True\<rparr>"] assms show ?thesis
    by (simp add: set_mask_def Let_def winners_inv_def)
qed

lemma solveLoop_winners:
  assumes "solveLoop cfg col sg = Some r"
  shows "\<forall>s' gl'. r = Inr (s', gl') \<longrightarrow> winners_inv n ow (fst sg) \<longrightarrow> (\<forall>v<n. ow v = 0 \<or> ow v = 1) \<longrightarrow>
           winners_inv n ow s' \<and> gameSolved s'"
proof (rule solveLoop.raw_induct
    [where P = "\<lambda>cfg col sg r. \<forall>s' gl'. r = Inr (s', gl') \<longrightarrow> winners_inv n ow (fst sg) \<longrightarrow>
                  (\<forall>v<n. ow v = 0 \<or> ow v = 1) \<longrightarrow> winners_inv n ow s' \<and> gameSolved s'",
     OF _ assms])
  fix loop :: "config \<Rightarrow> collaborators \<Rightarrow> oink \<times> globals \<Rightarrow> (error + oink \<times> globals) option"
    and cfg :: config and col :: collaborators and sg :: "oink \<times> globals"
    and r :: "error + oink \<times> globals"
  assume IH: "\<And>cfg col sg r. loop cfg col sg = Some r \<Longrightarrow>
      \<forall>s' gl'. r = Inr (s', gl') \<longrightarrow> winners_inv n ow (fst sg) \<longrightarrow> (\<forall>v<n. ow v = 0 \<or> ow v = 1) \<longrightarrow>
           winners_inv n ow s' \<and> gameSolved s'"
    and body: "(if gameSolved (fst sg) then Some (Inr sg)
      else
        (case solver_flags (solver cfg) of
           None \<Rightarrow> None
         | Some fl \<Rightarrow>
             Option.bind (experimental_run fl (set_mask cfg col (fst sg), snd sg)) (\<lambda>r.
               case r of
                 Inl e \<Rightarrow> Some (Inl e)
               | Inr sg1 \<Rightarrow>
                   Option.bind (flush (fst sg1)) (\<lambda>s2. loop cfg col (s2, snd sg1))))) = Some r"
  show "\<forall>s' gl'. r = Inr (s', gl') \<longrightarrow> winners_inv n ow (fst sg) \<longrightarrow> (\<forall>v<n. ow v = 0 \<or> ow v = 1) \<longrightarrow>
           winners_inv n ow s' \<and> gameSolved s'"
  proof (intro allI impI)
    fix s' gl' assume r: "r = Inr (s', gl')" and inv: "winners_inv n ow (fst sg)"
      and ow: "\<forall>v<n. ow v = 0 \<or> ow v = 1"
    show "winners_inv n ow s' \<and> gameSolved s'"
    proof (cases "gameSolved (fst sg)")
      case True
      with body r inv show ?thesis by auto
    next
      case False
      with body obtain fl where fl: "solver_flags (solver cfg) = Some fl"
        by (auto split: option.splits)
      with body False obtain r1 where
        e: "experimental_run fl (set_mask cfg col (fst sg), snd sg) = Some r1"
        and c: "(case r1 of Inl e \<Rightarrow> Some (Inl e)
                 | Inr sg1 \<Rightarrow> Option.bind (flush (fst sg1)) (\<lambda>s2. loop cfg col (s2, snd sg1)))
                = Some r"
        by (auto simp: Option.bind_eq_Some_conv)
      from c r obtain s1 gl1 where r1: "r1 = Inr (s1, gl1)"
        by (cases r1) auto
      with c obtain s2 where f: "flush s1 = Some s2" and l: "loop cfg col (s2, gl1) = Some r"
        by (auto simp: Option.bind_eq_Some_conv)
      have "winners_inv n ow s1"
        using e [unfolded r1] set_mask_winners [OF inv] ow by (rule experimental_run_winners)
      with flush_winners [OF f, of n ow] have "winners_inv n ow s2" by simp
      with IH [OF l] r ow show ?thesis by simp
    qed
  qed
qed

lemma run_solver_winners:
  assumes "run_solver cfg col (s, gl) = Some (Inr (s', gl'))" and "solver cfg \<noteq> - 1"
    and "winners_inv n ow s" and "\<forall>v<n. ow v = 0 \<or> ow v = 1"
  shows "winners_inv n ow s' \<and> gameSolved s'"
proof -
  from assms(1,2) have "solveLoop cfg col (s, gl) = Some (Inr (s', gl'))"
    by (simp add: run_solver_def)
  from solveLoop_winners [OF this, of n ow] assms(3,4) show ?thesis by simp
qed

lemma run_cycles_winners:
  assumes "run_cycles cfg col (s, gl) = Some (Inr (s', gl'))" and "solver cfg \<noteq> - 1"
    and "winners_inv n ow s" and "\<forall>v<n. ow v = 0 \<or> ow v = 1"
  shows "winners_inv n ow s' \<and> gameSolved s'"
proof (cases "removeWCWC cfg")
  case True
  with assms(1) have "Option.bind (solveTrivialCycles s)
      (\<lambda>r. case r of Inl e \<Rightarrow> Some (Inl e) | Inr cs \<Rightarrow> run_solver cfg col (snd cs, gl))
      = Some (Inr (s', gl'))"
    by (simp add: run_cycles_def)
  then show ?thesis
  proof (rule bind_case_sum_Inr)
    fix cs :: "int \<times> oink"
    assume t: "solveTrivialCycles s = Some (Inr cs)"
      and r: "run_solver cfg col (snd cs, gl) = Some (Inr (s', gl'))"
    have "winners_inv n ow (snd cs)"
      using solveTrivialCycles_winners [of s "fst cs" "snd cs" n ow] t assms(3) by simp
    then show "winners_inv n ow s' \<and> gameSolved s'"
      using run_solver_winners [OF r assms(2) _ assms(4)] by blast
  qed
next
  case False
  with assms(1) have "run_solver cfg col (s, gl) = Some (Inr (s', gl'))"
    by (simp add: run_cycles_def)
  then show ?thesis using assms(2,3,4) by (rule run_solver_winners)
qed

lemma run_loops_winners:
  assumes "run_loops cfg col (s, gl) = Some (Inr (s', gl'))" and "solver cfg \<noteq> - 1"
    and "winners_inv n ow s" and "\<forall>v<n. ow v = 0 \<or> ow v = 1"
  shows "winners_inv n ow s' \<and> gameSolved s'"
proof (cases "removeLoops cfg")
  case True
  with assms(1) have "Option.bind (solveSelfloops s)
      (\<lambda>r. case r of Inl e \<Rightarrow> Some (Inl e) | Inr cs \<Rightarrow> run_cycles cfg col (snd cs, gl))
      = Some (Inr (s', gl'))"
    by (simp add: run_loops_def)
  then show ?thesis
  proof (rule bind_case_sum_Inr)
    fix cs :: "int \<times> oink"
    assume t: "solveSelfloops s = Some (Inr cs)"
      and r: "run_cycles cfg col (snd cs, gl) = Some (Inr (s', gl'))"
    have "winners_inv n ow (snd cs)"
      using solveSelfloops_winners [of s "fst cs" "snd cs" n ow] t assms(3,4) by simp
    then show "winners_inv n ow s' \<and> gameSolved s'"
      using run_cycles_winners [OF r assms(2) _ assms(4)] by blast
  qed
next
  case False
  with assms(1) have "run_cycles cfg col (s, gl) = Some (Inr (s', gl'))"
    by (simp add: run_loops_def)
  then show ?thesis using assms(2,3,4) by (rule run_cycles_winners)
qed

subsection \<open>The early return through \<^verbatim>\<open>solveSingleParity\<close>\<close>

lemma wf_gameD:
  assumes "wf_game g" and "v < n_nodes g"
  shows "owner g v = 0 \<or> owner g v = 1" and "out g v \<noteq> []"
    and "\<And>u. u \<in> set (out g v) \<Longrightarrow> u < n_nodes g"
    and "\<And>u. u \<in> set (inn g v) \<Longrightarrow> u < n_nodes g"
    and "\<And>u. u < n_nodes g \<Longrightarrow> count_list (inn g v) u = count_list (out g u) v"
  using assms unfolding wf_game_def by blast+

lemma flush_in_step:
  assumes inv: "flush_inv p g {v} s" and u: "u < n_nodes g"
  shows "flush_inv p g {v} (flush_in v p u s)"
    and "solved (flush_in v p u s) u"
    and "\<And>x. solved s x \<Longrightarrow> solved (flush_in v p u s) x"
proof -
  note I = inv [unfolded flush_inv_def]
  show "flush_inv p g {v} (flush_in v p u s)"
  proof (cases "solved s u")
    case True
    with inv show ?thesis by (simp add: flush_in_def)
  next
    case False
    have own: "owner s u = p" using I u False by simp
    define s' where "s' = s\<lparr>strategy := (strategy s)(u := int v),
          solved := (solved s)(u := True),
          winner := (winner s)(u := p),
          disabled := (disabled s)(u := True),
          todo := u # todo s\<rparr>"
    have step: "flush_in v p u s = s'" using False own by (simp add: flush_in_def s'_def)
    have nt: "u \<notin> set (todo s)" using I False by blast
    have "flush_inv p g {v} s'"
      unfolding flush_inv_def
    proof (intro conjI)
      show "n_nodes s' = n_nodes g" "owner s' = owner g" "out s' = out g" "inn s' = inn g"
        using I by (simp_all add: s'_def)
      show "distinct (todo s')" using I nt by (simp add: s'_def)
      show "\<forall>x. x \<in> set (todo s') \<longrightarrow> solved s' x" using I by (simp add: s'_def)
      show "\<forall>x. outcount s' x = - 1 \<longrightarrow> solved s' x \<and> x \<notin> set (todo s')"
        using I False by (auto simp add: s'_def)
      show "\<forall>x. solved s' x \<longrightarrow> x < n_nodes g \<and> winner s' x = p"
        using I u by (simp add: s'_def)
      show "\<forall>x. x < n_nodes g \<and> \<not> solved s' x \<longrightarrow> owner g x = p"
        using I by (simp add: s'_def)
      show "\<forall>x y. solved s' x \<and> x \<notin> set (todo s') \<and> x \<notin> {v} \<and> y \<in> set (inn g x) \<longrightarrow> solved s' y"
      proof (intro allI impI)
        fix x y
        assume a: "solved s' x \<and> x \<notin> set (todo s') \<and> x \<notin> {v} \<and> y \<in> set (inn g x)"
        then have "x \<noteq> u" by (simp add: s'_def)
        with a have "solved s x \<and> x \<notin> set (todo s) \<and> x \<notin> {v} \<and> y \<in> set (inn g x)"
          by (simp add: s'_def)
        with I have "solved s y" by blast
        then show "solved s' y" by (simp add: s'_def)
      qed
      show "\<forall>x. x < n_nodes g \<and> \<not> solved s' x \<longrightarrow> (\<exists>y. y \<in> set (out g x) \<and> solved s' y)"
      proof (intro allI impI)
        fix x
        assume a: "x < n_nodes g \<and> \<not> solved s' x"
        then have "x < n_nodes g \<and> \<not> solved s x" by (simp add: s'_def split: if_splits)
        with I obtain y where "y \<in> set (out g x)" "solved s y" by blast
        then show "\<exists>y. y \<in> set (out g x) \<and> solved s' y" by (auto simp add: s'_def)
      qed
    qed
    with step show ?thesis by simp
  qed
  show "solved (flush_in v p u s) u"
    using I u by (cases "solved s u") (simp_all add: flush_in_def)
  show "\<And>x. solved s x \<Longrightarrow> solved (flush_in v p u s) x"
    by (auto simp add: flush_in_def Let_def)
qed

lemma flush_in_fold:
  assumes "flush_inv p g {v} s" and "\<forall>u\<in>set us. u < n_nodes g"
  shows "flush_inv p g {v} (fold (flush_in v p) us s) \<and>
         (\<forall>u\<in>set us. solved (fold (flush_in v p) us s) u) \<and>
         (\<forall>x. solved s x \<longrightarrow> solved (fold (flush_in v p) us s) x)"
  using assms
proof (induction us arbitrary: s)
  case Nil
  then show ?case by simp
next
  case (Cons u us)
  have u: "u < n_nodes g" using Cons.prems(2) by simp
  note st = flush_in_step [OF Cons.prems(1) u]
  have rest: "\<forall>u\<in>set us. u < n_nodes g" using Cons.prems(2) by simp
  note ih = Cons.IH [OF st(1) rest]
  show ?case
    using ih st(2,3) by simp
qed

lemma flush_invD:
  assumes "flush_inv p g X s"
  shows "n_nodes s = n_nodes g" and "owner s = owner g" and "out s = out g" and "inn s = inn g"
    and "distinct (todo s)"
    and "\<And>v. v \<in> set (todo s) \<Longrightarrow> solved s v"
    and "\<And>v. outcount s v = - 1 \<Longrightarrow> solved s v \<and> v \<notin> set (todo s)"
    and "\<And>v. solved s v \<Longrightarrow> v < n_nodes g \<and> winner s v = p"
    and "\<And>v. v < n_nodes g \<Longrightarrow> \<not> solved s v \<Longrightarrow> owner g v = p"
    and "\<And>v u. solved s v \<Longrightarrow> v \<notin> set (todo s) \<Longrightarrow> v \<notin> X \<Longrightarrow> u \<in> set (inn g v) \<Longrightarrow> solved s u"
    and "\<And>v. v < n_nodes g \<Longrightarrow> \<not> solved s v \<Longrightarrow> \<exists>u. u \<in> set (out g v) \<and> solved s u"
  using assms unfolding flush_inv_def by blast+

lemma flush_pop:
  assumes inv: "flush_inv p g {} s" and td: "todo s = v # rest" and p: "p = 0 \<or> p = 1"
    and wf: "wf_game g"
  shows "outcount s v \<noteq> - 1"
    and "flush_inv p g {}
           (fold (flush_in v (if winner s v \<noteq> 0 then 1 else 0)) (inn s v)
              (s\<lparr>todo := rest, outcount := (outcount s)(v := - 1)\<rparr>))"
proof -
  note I = flush_invD [OF inv]
  have vt: "v \<in> set (todo s)" using td by simp
  have sv: "solved s v" using I(6) vt .
  have vn: "v < n_nodes g" and wv: "winner s v = p" using I(8) [OF sv] by simp_all
  show "outcount s v \<noteq> - 1" using I(7) [of v] vt by blast
  have w: "(if winner s v \<noteq> 0 then 1 else 0) = p" using wv p by auto
  have vr: "v \<notin> set rest" and dr: "distinct rest" using I(5) td by simp_all
  define s1 where "s1 = s\<lparr>todo := rest, outcount := (outcount s)(v := - 1)\<rparr>"
  have inv1: "flush_inv p g {v} s1"
    unfolding flush_inv_def
  proof (intro conjI)
    show "n_nodes s1 = n_nodes g" "owner s1 = owner g" "out s1 = out g" "inn s1 = inn g"
      using I(1-4) by (simp_all add: s1_def)
    show "distinct (todo s1)" using dr by (simp add: s1_def)
    show "\<forall>x. x \<in> set (todo s1) \<longrightarrow> solved s1 x" using I(6) td by (simp add: s1_def)
    show "\<forall>x. outcount s1 x = - 1 \<longrightarrow> solved s1 x \<and> x \<notin> set (todo s1)"
    proof (intro allI impI)
      fix x assume a: "outcount s1 x = - 1"
      show "solved s1 x \<and> x \<notin> set (todo s1)"
      proof (cases "x = v")
        case True
        with sv vr show ?thesis by (simp add: s1_def)
      next
        case False
        with a have "outcount s x = - 1" by (simp add: s1_def)
        from I(7) [OF this] show ?thesis using td by (simp add: s1_def)
      qed
    qed
    show "\<forall>x. solved s1 x \<longrightarrow> x < n_nodes g \<and> winner s1 x = p" using I(8) by (simp add: s1_def)
    show "\<forall>x. x < n_nodes g \<and> \<not> solved s1 x \<longrightarrow> owner g x = p" using I(9) by (simp add: s1_def)
    show "\<forall>x y. solved s1 x \<and> x \<notin> set (todo s1) \<and> x \<notin> {v} \<and> y \<in> set (inn g x) \<longrightarrow> solved s1 y"
    proof (intro allI impI)
      fix x y
      assume a: "solved s1 x \<and> x \<notin> set (todo s1) \<and> x \<notin> {v} \<and> y \<in> set (inn g x)"
      then have "solved s x" "x \<notin> set (todo s)" "x \<notin> {}" "y \<in> set (inn g x)"
        using td by (simp_all add: s1_def)
      then have "solved s y" by (rule I(10))
      then show "solved s1 y" by (simp add: s1_def)
    qed
    show "\<forall>x. x < n_nodes g \<and> \<not> solved s1 x \<longrightarrow> (\<exists>y. y \<in> set (out g x) \<and> solved s1 y)"
      using I(11) by (simp add: s1_def)
  qed
  have innv: "inn s v = inn g v" using I(4) by simp
  have rng: "\<forall>u\<in>set (inn g v). u < n_nodes g" using wf_gameD(4) [OF wf vn] by blast
  define s2 where "s2 = fold (flush_in v p) (inn g v) s1"
  from flush_in_fold [OF inv1 rng] have inv2: "flush_inv p g {v} s2"
    and preds: "\<forall>u\<in>set (inn g v). solved s2 u"
    by (simp_all add: s2_def)
  note J = flush_invD [OF inv2]
  have "flush_inv p g {} s2"
    unfolding flush_inv_def
  proof (intro conjI)
    show "n_nodes s2 = n_nodes g" "owner s2 = owner g" "out s2 = out g" "inn s2 = inn g"
      using J(1-4) by simp_all
    show "distinct (todo s2)" using J(5) .
    show "\<forall>x. x \<in> set (todo s2) \<longrightarrow> solved s2 x" using J(6) by blast
    show "\<forall>x. outcount s2 x = - 1 \<longrightarrow> solved s2 x \<and> x \<notin> set (todo s2)" using J(7) by blast
    show "\<forall>x. solved s2 x \<longrightarrow> x < n_nodes g \<and> winner s2 x = p" using J(8) by blast
    show "\<forall>x. x < n_nodes g \<and> \<not> solved s2 x \<longrightarrow> owner g x = p" using J(9) by blast
    show "\<forall>x y. solved s2 x \<and> x \<notin> set (todo s2) \<and> x \<notin> {} \<and> y \<in> set (inn g x) \<longrightarrow> solved s2 y"
    proof (intro allI impI)
      fix x y
      assume a: "solved s2 x \<and> x \<notin> set (todo s2) \<and> x \<notin> {} \<and> y \<in> set (inn g x)"
      show "solved s2 y"
      proof (cases "x = v")
        case True
        with a preds show ?thesis by blast
      next
        case False
        with a have "solved s2 x" "x \<notin> set (todo s2)" "x \<notin> {v}" "y \<in> set (inn g x)" by simp_all
        then show ?thesis by (rule J(10))
      qed
    qed
    show "\<forall>x. x < n_nodes g \<and> \<not> solved s2 x \<longrightarrow> (\<exists>y. y \<in> set (out g x) \<and> solved s2 y)"
      using J(11) by blast
  qed
  then have "flush_inv p g {} (fold (flush_in v p) (inn g v) (s\<lparr>todo := rest, outcount := (outcount s)(v := - 1)\<rparr>))"
    unfolding s2_def s1_def .
  then show "flush_inv p g {}
           (fold (flush_in v (if winner s v \<noteq> 0 then 1 else 0)) (inn s v)
              (s\<lparr>todo := rest, outcount := (outcount s)(v := - 1)\<rparr>))"
    unfolding w innv .
qed

lemma flush_drains:
  assumes "flush s = Some s'"
  shows "flush_inv p g {} s \<and> (p = 0 \<or> p = 1) \<and> wf_game g \<longrightarrow> flush_inv p g {} s' \<and> todo s' = []"
proof (rule flush.raw_induct
    [where P = "\<lambda>s s'. flush_inv p g {} s \<and> (p = 0 \<or> p = 1) \<and> wf_game g \<longrightarrow>
                  flush_inv p g {} s' \<and> todo s' = []", OF _ assms])
  fix fl :: "oink \<Rightarrow> oink option" and s s' :: oink
  assume IH: "\<And>s s'. fl s = Some s' \<Longrightarrow>
      flush_inv p g {} s \<and> (p = 0 \<or> p = 1) \<and> wf_game g \<longrightarrow> flush_inv p g {} s' \<and> todo s' = []"
    and body: "(case todo s of
        [] \<Rightarrow> Some s
      | v # rest \<Rightarrow>
          if outcount s v = - 1 then Some (s\<lparr>todo := rest\<rparr>)
          else
            (let s1 = s\<lparr>todo := rest, outcount := (outcount s)(v := - 1)\<rparr>;
                 w = (if winner s1 v \<noteq> 0 then 1 else 0)
             in fl (fold (flush_in v w) (inn s1 v) s1))) = Some s'"
  show "flush_inv p g {} s \<and> (p = 0 \<or> p = 1) \<and> wf_game g \<longrightarrow> flush_inv p g {} s' \<and> todo s' = []"
  proof
    assume a: "flush_inv p g {} s \<and> (p = 0 \<or> p = 1) \<and> wf_game g"
    show "flush_inv p g {} s' \<and> todo s' = []"
    proof (cases "todo s")
      case Nil
      with body a show ?thesis by simp
    next
      case (Cons v rest)
      from a have inv: "flush_inv p g {} s" and p: "p = 0 \<or> p = 1" and wf: "wf_game g" by simp_all
      note pop = flush_pop [OF inv Cons p wf]
      have r: "fl (fold (flush_in v (if winner s v \<noteq> 0 then 1 else 0)) (inn s v)
                 (s\<lparr>todo := rest, outcount := (outcount s)(v := - 1)\<rparr>)) = Some s'"
        using body Cons pop(1) by (simp add: Let_def)
      from IH [OF r] pop(2) p wf show ?thesis by simp
    qed
  qed
qed

lemma flush_inv_all_solved:
  assumes inv: "flush_inv p g {} s" and td: "todo s = []" and wf: "wf_game g"
    and v: "v < n_nodes g"
  shows "solved s v \<and> winner s v = p"
proof -
  note I = flush_invD [OF inv]
  have "solved s v"
  proof (rule ccontr)
    assume n: "\<not> solved s v"
    from I(11) [OF v n] obtain u where u: "u \<in> set (out g v)" and su: "solved s u" by blast
    have un: "u < n_nodes g" using I(8) [OF su] by simp
    have e: "count_list (inn g u) v = count_list (out g v) u"
      using wf_gameD(5) [OF wf un v] .
    have "count_list (out g v) u \<noteq> 0" using u by (simp add: count_list_0_iff)
    with e have "count_list (inn g u) v \<noteq> 0" by simp
    then have m: "v \<in> set (inn g u)" by (simp add: count_list_0_iff)
    have "u \<notin> set (todo s)" "u \<notin> {}" using td by simp_all
    with su have "solved s v" using m by (rule I(10))
    with n show False by simp
  qed
  with I(8) show ?thesis by blast
qed

lemma solve_single:
  assumes sv: "solve i p strat s = Inr s'" and inv: "single_inv p g s" and i: "i < n_nodes g"
  shows "single_inv p g s'" and "solved s' i" and "\<And>x. solved s x \<Longrightarrow> solved s' x"
proof -
  note I = inv [unfolded single_inv_def]
  have ns: "\<not> solved s i" and s': "s' = s\<lparr>solved := (solved s)(i := True),
                  winner := (winner s)(i := p),
                  strategy := (strategy s)(i := (if p = owner s i then strat else - 1)),
                  disabled := (disabled s)(i := True),
                  todo := i # todo s\<rparr>"
    using sv by (auto simp add: solve_def split: if_splits)
  have nt: "i \<notin> set (todo s)" using I ns by blast
  show "single_inv p g s'"
    unfolding single_inv_def
  proof (intro conjI)
    show "n_nodes s' = n_nodes g" "owner s' = owner g" "out s' = out g" "inn s' = inn g"
      "outcount s' = outcount g"
      using I by (simp_all add: s')
    show "disabled s' = solved s'" using I by (simp add: s')
    show "distinct (todo s')" using I nt by (simp add: s')
    show "\<forall>v. v \<in> set (todo s') \<longleftrightarrow> solved s' v" using I by (auto simp add: s')
    show "\<forall>v. solved s' v \<longrightarrow> v < n_nodes g \<and> winner s' v = p" using I i by (simp add: s')
  qed
  show "solved s' i" by (simp add: s')
  show "\<And>x. solved s x \<Longrightarrow> solved s' x" by (simp add: s')
qed

lemma single_parity_vertex_step:
  assumes stp: "single_parity_vertex p i s = Inr s'" and inv: "single_inv p g s"
    and i: "i < n_nodes g"
  shows "single_inv p g s' \<and> (\<forall>x. solved s x \<longrightarrow> solved s' x) \<and>
         (solved s' i \<or> (owner g i = p \<and> (\<forall>u\<in>set (out g i). solved s' u)))"
proof -
  note I = inv [unfolded single_inv_def]
  have d: "disabled s = solved s" and o: "owner s = owner g" and ou: "out s = out g"
    using I by simp_all
  show ?thesis
  proof (cases "disabled s i")
    case True
    with stp have "s' = s" by (simp add: single_parity_vertex_def)
    with inv True d show ?thesis by simp
  next
    case False
    show ?thesis
    proof (cases "owner s i = p")
      case own: True
      show ?thesis
      proof (cases "find (\<lambda>to. \<not> disabled s to) (out s i)")
        case None
        with stp False own have e: "s' = s" by (simp add: single_parity_vertex_def)
        from None have "\<forall>u\<in>set (out s i). disabled s u" by (auto simp add: find_None_iff)
        then have "\<forall>u\<in>set (out g i). solved s' u" using d ou e by simp
        with inv e own o show ?thesis by simp
      next
        case (Some to)
        with stp False own have sv: "solve i p (int to) s = Inr s'"
          by (simp add: single_parity_vertex_def)
        from solve_single [OF sv inv i] show ?thesis by blast
      qed
    next
      case opp: False
      with stp False have sv: "solve i p (- 1) s = Inr s'"
        by (simp add: single_parity_vertex_def)
      from solve_single [OF sv inv i] show ?thesis by blast
    qed
  qed
qed

lemma single_loop:
  assumes "for_each (single_parity_vertex p) xs s = Inr s'" and "single_inv p g s"
    and "\<forall>i\<in>set xs. i < n_nodes g"
  shows "single_inv p g s' \<and> (\<forall>x. solved s x \<longrightarrow> solved s' x) \<and>
         (\<forall>i\<in>set xs. solved s' i \<or> (owner g i = p \<and> (\<forall>u\<in>set (out g i). solved s' u)))"
  using assms
proof (induction xs arbitrary: s)
  case Nil
  then show ?case by simp
next
  case (Cons i xs)
  from Cons.prems(1) obtain s1 where s1: "single_parity_vertex p i s = Inr s1"
    and r: "for_each (single_parity_vertex p) xs s1 = Inr s'"
    by (cases "single_parity_vertex p i s") auto
  have i: "i < n_nodes g" and rest: "\<forall>i\<in>set xs. i < n_nodes g" using Cons.prems(3) by simp_all
  from single_parity_vertex_step [OF s1 Cons.prems(2) i]
  have inv1: "single_inv p g s1" and mono1: "\<forall>x. solved s x \<longrightarrow> solved s1 x"
    and here: "solved s1 i \<or> (owner g i = p \<and> (\<forall>u\<in>set (out g i). solved s1 u))"
    by blast+
  from Cons.IH [OF r inv1 rest]
  have inv': "single_inv p g s'" and mono': "\<forall>x. solved s1 x \<longrightarrow> solved s' x"
    and there: "\<forall>i\<in>set xs. solved s' i \<or> (owner g i = p \<and> (\<forall>u\<in>set (out g i). solved s' u))"
    by blast+
  from here mono' have "solved s' i \<or> (owner g i = p \<and> (\<forall>u\<in>set (out g i). solved s' u))"
    by blast
  with inv' mono1 mono' there show ?case by simp
qed

lemma single_to_flush:
  assumes inv: "single_inv p g s" and wf: "wf_game g" and oc: "\<forall>v. outcount g v \<noteq> - 1"
    and all: "\<forall>i<n_nodes g. solved s i \<or> (owner g i = p \<and> (\<forall>u\<in>set (out g i). solved s u))"
  shows "flush_inv p g {} s"
  unfolding flush_inv_def
proof (intro conjI)
  note I = inv [unfolded single_inv_def]
  show "n_nodes s = n_nodes g" "owner s = owner g" "out s = out g" "inn s = inn g"
    using I by simp_all
  show "distinct (todo s)" using I by simp
  show "\<forall>v. v \<in> set (todo s) \<longrightarrow> solved s v" using I by simp
  show "\<forall>v. outcount s v = - 1 \<longrightarrow> solved s v \<and> v \<notin> set (todo s)" using I oc by simp
  show "\<forall>v. solved s v \<longrightarrow> v < n_nodes g \<and> winner s v = p" using I by simp
  show "\<forall>v. v < n_nodes g \<and> \<not> solved s v \<longrightarrow> owner g v = p" using all by blast
  have "\<forall>v. v \<in> set (todo s) \<longleftrightarrow> solved s v" using I by blast
  then show "\<forall>v u. solved s v \<and> v \<notin> set (todo s) \<and> v \<notin> {} \<and> u \<in> set (inn g v) \<longrightarrow> solved s u"
    by blast
  show "\<forall>v. v < n_nodes g \<and> \<not> solved s v \<longrightarrow> (\<exists>u. u \<in> set (out g v) \<and> solved s u)"
  proof (intro allI impI)
    fix v assume v: "v < n_nodes g \<and> \<not> solved s v"
    with all have a: "\<forall>u\<in>set (out g v). solved s u" by blast
    from wf_gameD(2) [OF wf] v obtain u where "u \<in> set (out g v)"
      by (cases "out g v") auto
    with a show "\<exists>u. u \<in> set (out g v) \<and> solved s u" by blast
  qed
qed

subsection \<open>The run of the driver\<close>

lemma solveSingleParity_unchanged:
  assumes "solveSingleParity s = Some (Inr (False, s'))"
  shows "s' = s"
  using assms
  by (auto simp add: solveSingleParity_def split: option.splits sum.splits if_splits)

lemma solveSingleParity_solves:
  assumes r: "solveSingleParity s = Some (Inr (True, s'))" and wf: "wf_game s"
    and fresh: "solved s = (\<lambda>_. False)" "disabled s = (\<lambda>_. False)" "todo s = []"
      "\<forall>v. outcount s v \<noteq> - 1"
    and v: "v < n_nodes s"
  shows "solved s' v \<and> (winner s' v = 0 \<or> winner s' v = 1)"
proof -
  from r obtain p s1 where p: "p = 0 \<or> p = 1"
    and loop: "for_each (single_parity_vertex p) [0..<n_nodes s] s = Inr s1"
    and fl: "flush s1 = Some s'"
    by (auto simp add: solveSingleParity_def split: option.splits sum.splits if_splits)
  have inv0: "single_inv p s s"
    using fresh(1,2,3) by (simp add: single_inv_def)
  have rng: "\<forall>i\<in>set [0..<n_nodes s]. i < n_nodes s" by simp
  from single_loop [OF loop inv0 rng]
  have inv1: "single_inv p s s1"
    and all: "\<forall>i\<in>set [0..<n_nodes s]. solved s1 i \<or> (owner s i = p \<and> (\<forall>u\<in>set (out s i). solved s1 u))"
    by blast+
  from all have all': "\<forall>i<n_nodes s. solved s1 i \<or> (owner s i = p \<and> (\<forall>u\<in>set (out s i). solved s1 u))"
    by simp
  have f1: "flush_inv p s {} s1"
    using inv1 wf fresh(4) all' by (rule single_to_flush)
  from flush_drains [OF fl, of p s] f1 p wf
  have f2: "flush_inv p s {} s'" and td: "todo s' = []" by simp_all
  from flush_inv_all_solved [OF f2 td wf v] p show ?thesis by auto
qed

lemma gameSolved_iff: "gameSolved s \<longleftrightarrow> (\<forall>v<n_nodes s. solved s v)"
  by (auto simp add: gameSolved_def list_all_iff)

text \<open>
  Claim C1. Let the input game be well formed (owners 0 or 1, every vertex with an outgoing
  edge, edges between vertices of the game, in-lists mirroring out-lists), nothing solved
  yet, and a solver configured. When \<^verbatim>\<open>Oink::run\<close> returns, every vertex is solved with
  winner 0 or 1; so the vertices won by player 0 and those won by player 1 are disjoint and
  together are all the vertices. The run returns either from \<^verbatim>\<open>solveSingleParity\<close>, where
  the vertices its second loop skipped are solved by \<^verbatim>\<open>flush\<close>, or from \<^verbatim>\<open>solveLoop\<close>, which
  ends only when \<^verbatim>\<open>gameSolved\<close> holds; the solvers of the loop are the experimental ones, the
  only ones among the sources.
\<close>

theorem run_solves_every_vertex:
  assumes wf: "wf_game (new_oink n ow pr ou inp)" and sv: "solver cfg \<noteq> - 1"
    and r: "run cfg col (new_oink n ow pr ou inp, gl) = Some (Inr (s', gl'))"
  shows "(\<forall>v<n. solved s' v \<and> (winner s' v = 0 \<or> winner s' v = 1)) \<and>
         {v. v < n \<and> winner s' v = 0} \<inter> {v. v < n \<and> winner s' v = 1} = {} \<and>
         {v. v < n \<and> winner s' v = 0} \<union> {v. v < n \<and> winner s' v = 1} = {v. v < n}"
proof -
  define s0 where "s0 = reprioritise cfg col (new_oink n ow pr ou inp)"
  have frame: "n_nodes s0 = n" "owner s0 = ow" "out s0 = ou" "inn s0 = inp"
    and fresh: "solved s0 = (\<lambda>_. False)" "disabled s0 = (\<lambda>_. False)" "todo s0 = []"
      "\<forall>v. outcount s0 v \<noteq> - 1"
    by (simp_all add: s0_def reprioritise_def new_oink_def)
  have sel: "n_nodes (new_oink n ow pr ou inp) = n" "owner (new_oink n ow pr ou inp) = ow"
    "out (new_oink n ow pr ou inp) = ou" "inn (new_oink n ow pr ou inp) = inp"
    by (simp_all add: new_oink_def)
  have wf0: "wf_game s0"
    using wf unfolding wf_game_def frame sel .
  have own: "\<forall>v<n. ow v = 0 \<or> ow v = 1"
  proof (intro allI impI)
    fix v assume "v < n"
    then have "v < n_nodes s0" by (simp add: frame)
    from wf_gameD(1) [OF wf0 this] show "ow v = 0 \<or> ow v = 1" by (simp add: frame)
  qed
  have inv0: "winners_inv n ow s0"
    by (simp add: winners_inv_def frame fresh)
  have loops: "\<forall>v<n. solved s' v \<and> (winner s' v = 0 \<or> winner s' v = 1)"
    if l: "run_loops cfg col (s0, gl) = Some (Inr (s', gl'))"
  proof -
    from run_loops_winners [OF l sv inv0 own]
    have w: "winners_inv n ow s'" and g: "gameSolved s'" by simp_all
    from w have "n_nodes s' = n" and "\<forall>v. solved s' v \<longrightarrow> winner s' v = 0 \<or> winner s' v = 1"
      by (simp_all add: winners_inv_def)
    with g show ?thesis by (simp add: gameSolved_iff)
  qed
  have main: "\<forall>v<n. solved s' v \<and> (winner s' v = 0 \<or> winner s' v = 1)"
  proof (cases "solveSingle cfg")
    case False
    with r have "run_loops cfg col (s0, gl) = Some (Inr (s', gl'))"
      by (simp add: run_def Let_def s0_def)
    then show ?thesis by (rule loops)
  next
    case single: True
    show ?thesis
    proof (cases "solveSingleParity (reprioritise cfg col (new_oink n ow pr ou inp))")
      case None
      with r single show ?thesis by (simp add: run_def Let_def)
    next
      case (Some r1)
      show ?thesis
      proof (cases r1)
        case (Inl e)
        with r single Some show ?thesis by (simp add: run_def Let_def)
      next
        case (Inr bs)
        show ?thesis
        proof (cases "fst bs")
          case True
          with r single Some Inr have "snd bs = s'" by (simp add: run_def Let_def)
          with Some Inr True have t: "solveSingleParity s0 = Some (Inr (True, s'))"
            by (cases bs) (simp add: s0_def)
          show ?thesis
            using solveSingleParity_solves [OF t wf0 fresh] frame(1) by blast
        next
          case False
          with Some Inr have "solveSingleParity s0 = Some (Inr (False, snd bs))"
            by (cases bs) (simp add: s0_def)
          then have "snd bs = s0" by (rule solveSingleParity_unchanged)
          with r single Some Inr False have "run_loops cfg col (s0, gl) = Some (Inr (s', gl'))"
            by (simp add: run_def Let_def s0_def)
          then show ?thesis by (rule loops)
        qed
      qed
    qed
  qed
  from main have "{v. v < n \<and> winner s' v = 0} \<union> {v. v < n \<and> winner s' v = 1} = {v. v < n}"
    by blast
  moreover have "{v. v < n \<and> winner s' v = 0} \<inter> {v. v < n \<and> winner s' v = 1} = {}"
    by auto
  ultimately show ?thesis using main by blast
qed

lemma odd_cycle_wf:
  "wf_game (new_oink 2 (arr 0 [0, 1]) (arr 0 [1, 1]) (arr [] [[1], [0]]) (arr [] [[1], [0]]))"
proof -
  have two: "v < 2 \<longleftrightarrow> v = 0 \<or> v = 1" for v :: nat by auto
  show ?thesis
    by (simp add: wf_game_def new_oink_def two arr_def)
qed

lemma odd_cycle_single:
  "map (solution_of (run single_config plain_collaborators (game_odd_cycle, fresh_globals))) [0, 1]
     = [Some (True, 1, - 1), Some (True, 1, 0)]"
  by code_simp

theorem run_solves_every_vertex_witness:
  "\<exists>s' gl'. run single_config plain_collaborators (game_odd_cycle, fresh_globals) = Some (Inr (s', gl')) \<and>
      solved s' 0 \<and> solved s' 1 \<and> winner s' 0 = 1 \<and> winner s' 1 = 1 \<and> strategy s' 1 = 0"
proof -
  from odd_cycle_single obtain s' gl' where
    r: "run single_config plain_collaborators (game_odd_cycle, fresh_globals) = Some (Inr (s', gl'))"
    by (auto simp add: solution_of_def split: option.splits sum.splits)
  have sv: "solver single_config \<noteq> - 1" by (simp add: single_config_def plain_config_def)
  from run_solves_every_vertex [OF odd_cycle_wf sv r [unfolded game_odd_cycle_def]]
  have "\<forall>v<2. solved s' v \<and> (winner s' v = 0 \<or> winner s' v = 1)" by blast
  then have s: "solved s' 0" "solved s' 1" by simp_all
  from odd_cycle_single r have w: "winner s' 0 = 1" "winner s' 1 = 1" "strategy s' 1 = 0"
    by (simp_all add: solution_of_def)
  show ?thesis
  proof (intro exI conjI)
    show "run single_config plain_collaborators (game_odd_cycle, fresh_globals) = Some (Inr (s', gl'))"
      by (rule r)
  qed (rule s w)+
qed

end
